theory Spec2Isabelle
  imports Main
begin

section \<open>Python values used by \<open>src/model.py\<close>\<close>

text \<open>
  Strings are lists of characters with code points below 256. Exceptions are values of
  \<open>exn\<close>: every constructor stands for an instance of Python's class \<open>Exception\<close>,
  the class that the handler of \<open>fetch_summary\<close> catches.
\<close>

datatype exn =
    KeyError
  | TypeError
  | IndexError
  | ValueError
  | OpenAIError
  | HTTPStatusError
  | TransportError string
  | JSONDecodeError
  | NotModelled

subsection \<open>Substring test: \<open>fn in str(path)\<close>\<close>

fun starts_with :: "string \<Rightarrow> string \<Rightarrow> bool" where
  "starts_with [] s = True"
| "starts_with (a # as) [] = False"
| "starts_with (a # as) (c # cs) = (a = c \<and> starts_with as cs)"

fun str_contains :: "string \<Rightarrow> string \<Rightarrow> bool" where
  "str_contains fn [] = (fn = [])"
| "str_contains fn (c # cs) = (starts_with fn (c # cs) \<or> str_contains fn cs)"

subsection \<open>Whitespace split: \<open>prompt_code.split()\<close>\<close>

text \<open>
  \<open>str.split()\<close> without arguments cuts at runs of whitespace and yields no empty
  token. The whitespace characters below code point 256 are 9-13, 28-32, 133 and 160.
\<close>

definition is_space :: "char \<Rightarrow> bool" where
  "is_space c = ((of_char c :: nat) \<in> set [9, 10, 11, 12, 13, 28, 29, 30, 31, 32, 133, 160])"

fun split_from :: "string \<Rightarrow> string \<Rightarrow> string list" where
  "split_from cur [] = (if cur = [] then [] else [cur])"
| "split_from cur (c # cs) =
     (if is_space c then (if cur = [] then split_from [] cs else cur # split_from [] cs)
      else split_from (cur @ [c]) cs)"

definition split_ws :: "string \<Rightarrow> string list" where
  "split_ws s = split_from [] s"

subsection \<open>Decimal rendering of \<open>prompt_len\<close>\<close>

definition digit_char :: "nat \<Rightarrow> char" where
  "digit_char d = ''0123456789'' ! d"

function str_nat :: "nat \<Rightarrow> string" where
  "str_nat n = (if n < 10 then [digit_char n] else str_nat (n div 10) @ [digit_char (n mod 10)])"
  by pat_completeness auto
termination
  by (relation "measure id") auto

declare str_nat.simps [simp del]

subsection \<open>Template substitution: \<open>prompt.format(contents)\<close>\<close>

text \<open>
  \<open>str.format\<close> with one positional string argument. Literal text is copied,
  \<open>{{\<close> and \<open>}}\<close> are the escaped braces, \<open>{}\<close> takes the next positional argument and
  \<open>{N}\<close> the argument number N. A lone brace or a switch between the two numberings is
  a ValueError, an argument number other than 0 an IndexError, a named field a KeyError.
  Fields with a conversion, a format specification, an attribute or an index
  (\<open>!\<close>, \<open>:\<close>, \<open>.\<close>, \<open>[\<close>) are outside this model: \<open>NotModelled\<close>.
\<close>

datatype numbering = Unset | Automatic nat | Manual

definition is_digit :: "char \<Rightarrow> bool" where
  "is_digit c = (48 \<le> (of_char c :: nat) \<and> (of_char c :: nat) \<le> 57)"

definition all_zero :: "string \<Rightarrow> bool" where
  "all_zero s = list_all (\<lambda>c. c = CHR ''0'') s"

definition format_field :: "string \<Rightarrow> numbering \<Rightarrow> string \<Rightarrow> exn + (string \<times> numbering)" where
  "format_field field num arg =
     (if list_ex (\<lambda>c. c \<in> set ''!:.[{'') field then Inl NotModelled
      else if field = [] then
        (case num of
           Manual \<Rightarrow> Inl ValueError
         | Unset \<Rightarrow> Inr (arg, Automatic 1)
         | Automatic k \<Rightarrow> (if k = 0 then Inr (arg, Automatic 1) else Inl IndexError))
      else if list_all is_digit field then
        (case num of
           Automatic k \<Rightarrow> Inl ValueError
         | _ \<Rightarrow> (if all_zero field then Inr (arg, Manual) else Inl IndexError))
      else Inl KeyError)"

fun format_from :: "string \<Rightarrow> numbering \<Rightarrow> string option \<Rightarrow> string \<Rightarrow> exn + string" where
  "format_from arg num None [] = Inr []"
| "format_from arg num (Some field) [] = Inl ValueError"
| "format_from arg num None (c # cs) =
     (if c = CHR ''{'' then
        (case cs of
           d # ds \<Rightarrow>
             (if d = CHR ''{'' then
                (case format_from arg num None ds of
                   Inl e \<Rightarrow> Inl e | Inr out \<Rightarrow> Inr (CHR ''{'' # out))
              else format_from arg num (Some []) cs)
         | [] \<Rightarrow> Inl ValueError)
      else if c = CHR ''}'' then
        (case cs of
           d # ds \<Rightarrow>
             (if d = CHR ''}'' then
                (case format_from arg num None ds of
                   Inl e \<Rightarrow> Inl e | Inr out \<Rightarrow> Inr (CHR ''}'' # out))
              else Inl ValueError)
         | [] \<Rightarrow> Inl ValueError)
      else
        (case format_from arg num None cs of
           Inl e \<Rightarrow> Inl e | Inr out \<Rightarrow> Inr (c # out)))"
| "format_from arg num (Some field) (c # cs) =
     (if c = CHR ''}'' then
        (case format_field field num arg of
           Inl e \<Rightarrow> Inl e
         | Inr (piece, num') \<Rightarrow>
             (case format_from arg num' None cs of
                Inl e \<Rightarrow> Inl e | Inr out \<Rightarrow> Inr (piece @ out)))
      else format_from arg num (Some (field @ [c])) cs)"

definition str_format :: "string \<Rightarrow> string \<Rightarrow> exn + string" where
  "str_format template arg = format_from arg Unset None template"


section \<open>Collaborators of the pipeline\<close>

subsection \<open>Parsed JSON and the operations the source applies to it\<close>

text \<open>
  \<open>response.json()\<close> yields any JSON value, so the membership test, \<open>len\<close> and the
  subscripts of lines 142-145 are modelled on every kind of value, with the TypeError,
  KeyError or IndexError that Python raises. A number is kept as an integer: its value plays
  no role in the source. An object is the list of the items of the dictionary.
\<close>

datatype json =
    JNull
  | JBool bool
  | JNum int
  | JStr string
  | JArr "json list"
  | JObj "(string \<times> json) list"

fun py_contains :: "string \<Rightarrow> json \<Rightarrow> exn + bool" where
  "py_contains k (JObj kvs) = Inr (k \<in> set (map fst kvs))"
| "py_contains k (JArr xs) = Inr (JStr k \<in> set xs)"
| "py_contains k (JStr s) = Inr (str_contains k s)"
| "py_contains k _ = Inl TypeError"

fun py_getitem :: "json \<Rightarrow> string \<Rightarrow> exn + json" where
  "py_getitem (JObj kvs) k = (case map_of kvs k of None \<Rightarrow> Inl KeyError | Some v \<Rightarrow> Inr v)"
| "py_getitem _ k = Inl TypeError"

fun py_len :: "json \<Rightarrow> exn + nat" where
  "py_len (JArr xs) = Inr (length xs)"
| "py_len (JStr s) = Inr (length s)"
| "py_len (JObj kvs) = Inr (length (remdups (map fst kvs)))"
| "py_len _ = Inl TypeError"

fun py_first :: "json \<Rightarrow> exn + json" where
  "py_first (JArr []) = Inl IndexError"
| "py_first (JArr (x # xs)) = Inr x"
| "py_first (JStr []) = Inl IndexError"
| "py_first (JStr (c # cs)) = Inr (JStr [c])"
| "py_first (JObj kvs) = Inl KeyError"
| "py_first _ = Inl TypeError"

subsection \<open>HTTP response\<close>

record response =
  status_code :: int
  body_text :: string
  json_result :: "exn + json"

definition raise_for_status :: "response \<Rightarrow> exn + unit" where
  "raise_for_status r =
     (if 400 \<le> status_code r \<and> status_code r \<le> 599 then Inl HTTPStatusError else Inr ())"

subsection \<open>Response cache\<close>

text \<open>
  Modelled from the spec: the cache class (\<open>cachetools.TTLCache\<close>) is a library that is not
  part of the sources. Section 4.2 of the specification gives it a maximum entry count,
  with the oldest-inserted entries evicted first, and a time-to-live per entry, an entry
  older than that being absent on lookup. Entries are kept oldest first, each with the
  time at which it expires.
\<close>

record ttl_cache =
  maxsize :: nat
  ttl :: nat
  entries :: "(string \<times> string \<times> nat) list"

text \<open>Lines 25-28: \<open>TTLCache(maxsize=500, ttl=600)\<close>, empty when it is created.\<close>

definition get_cache :: ttl_cache where
  "get_cache = \<lparr>maxsize = 500, ttl = 600, entries = []\<rparr>"

text \<open>
  Modelled from the spec: the lookup of the cache class. An entry is found under its key
  as long as the clock \<open>t\<close> has not reached its expiry time.
\<close>

definition cache_lookup :: "nat \<Rightarrow> ttl_cache \<Rightarrow> string \<Rightarrow> string option" where
  "cache_lookup t c k =
     (case find (\<lambda>e. fst e = k) (entries c) of
        None \<Rightarrow> None
      | Some (k', v, expires) \<Rightarrow> (if t < expires then Some v else None))"

text \<open>
  Modelled from the spec: \<open>key in cache\<close> and \<open>cache[key]\<close> of the cache class, the second
  with the KeyError of a Python mapping on an absent key.
\<close>

definition cache_contains :: "nat \<Rightarrow> ttl_cache \<Rightarrow> string \<Rightarrow> bool" where
  "cache_contains t c k = (cache_lookup t c k \<noteq> None)"

definition cache_getitem :: "nat \<Rightarrow> ttl_cache \<Rightarrow> string \<Rightarrow> exn + string" where
  "cache_getitem t c k = (case cache_lookup t c k of None \<Rightarrow> Inl KeyError | Some v \<Rightarrow> Inr v)"

text \<open>
  Modelled from the spec: \<open>cache[key] = value\<close> of the cache class. Expired entries are
  dropped; a key that is present is replaced; otherwise the oldest entries make room when
  the cache is full. The new entry is the newest and expires one time-to-live from now.
\<close>

definition cache_setitem :: "nat \<Rightarrow> ttl_cache \<Rightarrow> string \<Rightarrow> string \<Rightarrow> ttl_cache" where
  "cache_setitem t c k v =
     (let live = filter (\<lambda>e. t < snd (snd e)) (entries c);
          kept = (if k \<in> set (map fst live) then filter (\<lambda>e. fst e \<noteq> k) live
                  else drop (Suc (length live) - maxsize c) live)
      in c\<lparr>entries := kept @ [(k, v, t + ttl c)]\<rparr>)"

subsection \<open>The world outside one coroutine\<close>

text \<open>
  \<open>Post c f p\<close>: the task of file \<open>f\<close> sends prompt \<open>p\<close> through client \<open>c\<close>.
  \<open>JsonParsed f\<close>: \<open>response.json()\<close> is called for file \<open>f\<close>.
  \<open>CacheWrite k v\<close>: \<open>cache[k] = v\<close> is executed.
  The world holds the monotonic clock that the cache reads, the trace of these events and
  the HTTP clients that were created and not closed.
\<close>

datatype event =
    ClientCreated nat
  | Post nat string string
  | JsonParsed string
  | CacheWrite string string

record world =
  now :: nat
  trace :: "event list"
  next_client :: nat
  open_clients :: "nat list"

definition log :: "event \<Rightarrow> world \<Rightarrow> world" where
  "log e w = w\<lparr>trace := trace w @ [e]\<rparr>"

definition tick :: "nat \<Rightarrow> world \<Rightarrow> world" where
  "tick dt w = w\<lparr>now := now w + dt\<rparr>"

fun is_post :: "event \<Rightarrow> bool" where
  "is_post (Post c f p) = True"
| "is_post _ = False"

definition posts :: "world \<Rightarrow> nat" where
  "posts w = length (filter is_post (trace w))"

text \<open>
  What the program cannot decide is a parameter: \<open>render\<close> is \<open>str.format\<close> on the template
  and the contents; \<open>format_sentence\<close> is the helper of \<open>utils\<close>, not part of the sources;
  \<open>post n p\<close> is what the endpoint answers to the \<open>n\<close>-th request, which carries prompt
  \<open>p\<close>: a response, or the exception that \<open>http_client.post\<close> raises (timeout,
  connection error).
\<close>

record env =
  render :: "string \<Rightarrow> string \<Rightarrow> exn + string"
  format_sentence :: "json \<Rightarrow> exn + string"
  post :: "nat \<Rightarrow> string \<Rightarrow> exn + response"

definition get_http_client :: "world \<Rightarrow> nat \<times> world" where
  "get_http_client w =
     (next_client w,
      log (ClientCreated (next_client w))
        (w\<lparr>next_client := Suc (next_client w), open_clients := next_client w # open_clients w\<rparr>))"


section \<open>\<open>fetch_summary\<close>\<close>

definition fallback :: string where
  "fallback = ''Error generating file summary.''"

text \<open>
  Lines 142-145: the test for a missing or empty \<open>choices\<close>, with its short-circuit
  \<open>or\<close>, and the extraction of \<open>data["choices"][0]["text"]\<close>.
\<close>

definition choices_missing :: "json \<Rightarrow> exn + bool" where
  "choices_missing data =
     (case py_contains ''choices'' data of
        Inl e \<Rightarrow> Inl e
      | Inr False \<Rightarrow> Inr True
      | Inr True \<Rightarrow>
          (case py_getitem data ''choices'' of
             Inl e \<Rightarrow> Inl e
           | Inr ch \<Rightarrow> (case py_len ch of Inl e \<Rightarrow> Inl e | Inr n \<Rightarrow> Inr (n = 0))))"

definition first_choice_text :: "json \<Rightarrow> exn + json" where
  "first_choice_text data =
     (case py_getitem data ''choices'' of
        Inl e \<Rightarrow> Inl e
      | Inr ch \<Rightarrow>
          (case py_first ch of Inl e \<Rightarrow> Inl e | Inr c0 \<Rightarrow> py_getitem c0 ''text''))"

text \<open>
  Lines 135-149, the part of the \<open>try\<close> block that runs once the response is there. The
  first component is the text that the block returns, or the exception that it raises.
\<close>

definition after_post ::
  "env \<Rightarrow> string \<Rightarrow> string \<Rightarrow> response \<Rightarrow> ttl_cache \<Rightarrow> world \<Rightarrow> (exn + string) \<times> ttl_cache \<times> world"
where
  "after_post ev file prompt r c w =
     (if status_code r \<noteq> 200 then (Inr fallback, c, w)
      else
        (case raise_for_status r of
           Inl e \<Rightarrow> (Inl e, c, w)
         | Inr u \<Rightarrow>
             (let w1 = log (JsonParsed file) w in
              case json_result r of
                Inl e \<Rightarrow> (Inl e, c, w1)
              | Inr data \<Rightarrow>
                  (case choices_missing data of
                     Inl e \<Rightarrow> (Inl e, c, w1)
                   | Inr True \<Rightarrow> (Inl OpenAIError, c, w1)
                   | Inr False \<Rightarrow>
                       (case first_choice_text data of
                          Inl e \<Rightarrow> (Inl e, c, w1)
                        | Inr summary \<Rightarrow>
                            (case format_sentence ev summary of
                               Inl e \<Rightarrow> (Inl e, c, w1)
                             | Inr s \<Rightarrow>
                                 (Inr s, cache_setitem (now w1) c prompt s,
                                  log (CacheWrite prompt s) w1)))))))"

text \<open>
  The coroutine has one suspension point, the \<open>await\<close> of the request. \<open>fetch_start\<close>
  runs it up to there (lines 115-133): a cache hit returns at once, outside the
  \<open>try\<close> block, and a miss sends the request. \<open>fetch_resume\<close> runs it from the
  outcome of the request to its end (lines 135-153), with the handler of line 151.
  The membership test of line 115 and the lookup of line 117 each read the clock of the
  cache: \<open>gap\<close> is the time that passes between the two, so an entry that is present at
  the test can have expired at the lookup, and the KeyError of the lookup leaves the
  function, which has no handler there.
\<close>

datatype start = Finished "string \<times> string" | Raised exn | Suspended nat

definition fetch_start ::
  "nat \<Rightarrow> string \<Rightarrow> string \<Rightarrow> nat \<Rightarrow> ttl_cache \<Rightarrow> world \<Rightarrow> start \<times> world"
where
  "fetch_start gap file prompt http_client c w =
     (if cache_contains (now w) c prompt then
        (case cache_getitem (now w + gap) c prompt of
           Inl e \<Rightarrow> (Raised e, tick gap w)
         | Inr v \<Rightarrow> (Finished (file, v), tick gap w))
      else (Suspended (posts w), log (Post http_client file prompt) w))"

definition fetch_resume ::
  "env \<Rightarrow> string \<Rightarrow> string \<Rightarrow> exn + response \<Rightarrow> ttl_cache \<Rightarrow> world
     \<Rightarrow> (string \<times> string) \<times> ttl_cache \<times> world"
where
  "fetch_resume ev file prompt outcome c w =
     (case outcome of
        Inl e \<Rightarrow> ((file, fallback), c, w)
      | Inr r \<Rightarrow>
          (case after_post ev file prompt r c w of
             (Inl e, c', w') \<Rightarrow> ((file, fallback), c', w')
           | (Inr t, c', w') \<Rightarrow> ((file, t), c', w')))"

text \<open>
  The whole coroutine with nothing else running in between; \<open>gap\<close> is the time between
  the two cache operations of a hit, \<open>dt\<close> the time that passes while it waits for the
  response.
\<close>

definition fetch_summary ::
  "env \<Rightarrow> nat \<Rightarrow> nat \<Rightarrow> string \<Rightarrow> string \<Rightarrow> nat \<Rightarrow> ttl_cache \<Rightarrow> world
     \<Rightarrow> (exn + string \<times> string) \<times> ttl_cache \<times> world"
where
  "fetch_summary ev gap dt file prompt http_client c w =
     (case fetch_start gap file prompt http_client c w of
        (Finished r, w1) \<Rightarrow> (Inr r, c, w1)
      | (Raised e, w1) \<Rightarrow> (Inl e, c, w1)
      | (Suspended n, w1) \<Rightarrow>
          (case fetch_resume ev file prompt (post ev n prompt) c (tick dt w1) of
             (r, c', w') \<Rightarrow> (Inr r, c', w')))"

definition null_summary :: "string \<Rightarrow> string \<Rightarrow> string \<times> string" where
  "null_summary file summary = (file, summary)"

section \<open>\<open>code_to_text\<close>\<close>

definition MAX_TOKENS :: nat where
  "MAX_TOKENS = 4096"

definition err_format :: "nat \<Rightarrow> string" where
  "err_format prompt_len = ''Prompt exceeds max token limit: '' @ str_nat prompt_len"

datatype task = NullSummary string string | FetchSummary string string nat

definition ignored :: "string list \<Rightarrow> string \<Rightarrow> bool" where
  "ignored ignore_files path = list_ex (\<lambda>fn. str_contains fn path) ignore_files"

text \<open>
  The loop of lines 63-83 over \<open>files.items()\<close>, a dictionary given as the list of its
  items. It creates the tasks and runs none of them; an exception of the template
  substitution leaves the loop and the function.
\<close>

fun build_tasks ::
  "env \<Rightarrow> string list \<Rightarrow> (string \<times> string) list \<Rightarrow> string \<Rightarrow> nat \<Rightarrow> exn + task list"
where
  "build_tasks ev ignore_files [] prompt http_client = Inr []"
| "build_tasks ev ignore_files ((path, contents) # rest) prompt http_client =
     (if ignored ignore_files path then build_tasks ev ignore_files rest prompt http_client
      else
        (case render ev prompt contents of
           Inl e \<Rightarrow> Inl e
         | Inr prompt_code \<Rightarrow>
             (let prompt_len = length (split_ws prompt_code);
                  t = (if prompt_len > MAX_TOKENS
                       then NullSummary path (err_format prompt_len)
                       else FetchSummary path prompt_code http_client)
              in case build_tasks ev ignore_files rest prompt http_client of
                   Inl e \<Rightarrow> Inl e
                 | Inr ts \<Rightarrow> Inr (t # ts))))"

subsection \<open>The event loop under \<open>asyncio.gather\<close>\<close>

text \<open>
  A task is created, then possibly waiting for the answer to its request number \<open>n\<close>,
  then done with its result or failed with an exception. The loop state holds the tasks,
  the cache they share and the world.
\<close>

datatype tstate =
    Created task
  | Awaiting string string nat
  | Done "string \<times> string"
  | Failed exn

record loop =
  tasks :: "tstate list"
  cache :: ttl_cache
  world :: world

text \<open>
  \<open>step ev gap i l\<close> runs task \<open>i\<close> up to its next suspension point or to its end; \<open>gap\<close>
  is the time between the two cache operations if the task starts with a hit.
\<close>

definition step :: "env \<Rightarrow> nat \<Rightarrow> nat \<Rightarrow> loop \<Rightarrow> loop" where
  "step ev gap i l =
     (if i < length (tasks l) then
        (case tasks l ! i of
           Created (NullSummary f s) \<Rightarrow> l\<lparr>tasks := (tasks l)[i := Done (null_summary f s)]\<rparr>
         | Created (FetchSummary f p hc) \<Rightarrow>
             (case fetch_start gap f p hc (cache l) (world l) of
                (Finished r, w') \<Rightarrow> l\<lparr>tasks := (tasks l)[i := Done r], world := w'\<rparr>
              | (Raised e, w') \<Rightarrow> l\<lparr>tasks := (tasks l)[i := Failed e], world := w'\<rparr>
              | (Suspended n, w') \<Rightarrow> l\<lparr>tasks := (tasks l)[i := Awaiting f p n], world := w'\<rparr>)
         | Awaiting f p n \<Rightarrow>
             (case fetch_resume ev f p (post ev n p) (cache l) (world l) of
                (r, c', w') \<Rightarrow> l\<lparr>tasks := (tasks l)[i := Done r], cache := c', world := w'\<rparr>)
         | Done r \<Rightarrow> l
         | Failed e \<Rightarrow> l)
      else l)"

definition start_task :: "env \<Rightarrow> nat \<Rightarrow> loop \<Rightarrow> loop" where
  "start_task ev i l =
     (if i < length (tasks l) then
        (case tasks l ! i of Created t \<Rightarrow> step ev 0 i l | _ \<Rightarrow> l)
      else l)"

text \<open>\<open>complete\<close> runs one task, from whatever state it is in, to its end.\<close>

fun complete ::
  "env \<Rightarrow> tstate \<Rightarrow> ttl_cache \<Rightarrow> world \<Rightarrow> (exn + string \<times> string) \<times> ttl_cache \<times> world"
where
  "complete ev (Done r) c w = (Inr r, c, w)"
| "complete ev (Failed e) c w = (Inl e, c, w)"
| "complete ev (Awaiting f p n) c w =
     (case fetch_resume ev f p (post ev n p) c w of (r, c', w') \<Rightarrow> (Inr r, c', w'))"
| "complete ev (Created (NullSummary f s)) c w = (Inr (null_summary f s), c, w)"
| "complete ev (Created (FetchSummary f p hc)) c w = fetch_summary ev 0 0 f p hc c w"

fun collect ::
  "env \<Rightarrow> tstate list \<Rightarrow> ttl_cache \<Rightarrow> world \<Rightarrow> (exn + (string \<times> string) list) \<times> ttl_cache \<times> world"
where
  "collect ev [] c w = (Inr [], c, w)"
| "collect ev (t # ts) c w =
     (case complete ev t c w of
        (r, c', w') \<Rightarrow>
          (case collect ev ts c' w' of
             (rs, c'', w'') \<Rightarrow>
               ((case r of
                   Inl e \<Rightarrow> Inl e
                 | Inr x \<Rightarrow> (case rs of Inl e \<Rightarrow> Inl e | Inr xs \<Rightarrow> Inr (x # xs))),
                c'', w'')))"

text \<open>
  \<open>asyncio.gather\<close> in line 85 runs every task to its end and returns the results in the
  order of the tasks, or raises the exception of a task that failed. Tasks interleave at
  their suspension points only, in an order that the program does not control: the
  schedule \<open>sched\<close> lists, one after the other, how much time passes before the next
  step, the gap between the cache operations of that step, and which task runs it. After
  the schedule, the tasks that have not started start in the order in which they were
  created, and then every task runs to its end, so that each request is answered; no
  further time passes there.
\<close>

definition sched_step :: "env \<Rightarrow> loop \<Rightarrow> nat \<times> nat \<times> nat \<Rightarrow> loop" where
  "sched_step ev l d =
     step ev (fst (snd d)) (snd (snd d)) (l\<lparr>world := tick (fst d) (world l)\<rparr>)"

definition gather ::
  "env \<Rightarrow> (nat \<times> nat \<times> nat) list \<Rightarrow> task list \<Rightarrow> ttl_cache \<Rightarrow> world
     \<Rightarrow> (exn + (string \<times> string) list) \<times> world"
where
  "gather ev sched ts c w =
     (let l0 = \<lparr>tasks = map Created ts, cache = c, world = w\<rparr>;
          l1 = foldl (sched_step ev) l0 sched;
          l2 = foldl (\<lambda>l i. start_task ev i l) l1 [0..<length ts]
      in case collect ev (tasks l2) (cache l2) (world l2) of (rs, c', w') \<Rightarrow> (rs, w'))"

definition code_to_text ::
  "env \<Rightarrow> (nat \<times> nat \<times> nat) list \<Rightarrow> string list \<Rightarrow> (string \<times> string) list \<Rightarrow> string \<Rightarrow> world
     \<Rightarrow> (exn + (string \<times> string) list) \<times> world"
where
  "code_to_text ev sched ignore_files files prompt w =
     (case get_http_client w of
        (http_client, w1) \<Rightarrow>
          (let c = get_cache in
           case build_tasks ev ignore_files files prompt http_client of
             Inl e \<Rightarrow> (Inl e, w1)
           | Inr ts \<Rightarrow> gather ev sched ts c w1))"

section \<open>A concrete environment\<close>

text \<open>
  Modelled from the spec: \<open>format_sentence\<close> is imported from \<open>utils\<close>, which is not part of
  the sources. Section 4.4 of the specification describes it as trimming surrounding
  whitespace and quoting artifacts; on a value that is not a string it is taken to raise.
\<close>

definition strip_sentence :: "string \<Rightarrow> string" where
  "strip_sentence s =
     (let junk = (\<lambda>c. is_space c \<or> c = CHR 0x22)
      in rev (dropWhile junk (rev (dropWhile junk s))))"

text \<open>
  Modelled from the spec: \<open>format_sentence\<close> on the value that \<open>data["choices"][0]["text"]\<close>
  yields.
\<close>

fun format_sentence_spec :: "json \<Rightarrow> exn + string" where
  "format_sentence_spec (JStr s) = Inr (strip_sentence s)"
| "format_sentence_spec _ = Inl TypeError"

text \<open>A response of the completion endpoint with status \<open>st\<close> and the JSON body \<open>data\<close>.\<close>

definition reply :: "int \<Rightarrow> json \<Rightarrow> response" where
  "reply st data = \<lparr>status_code = st, body_text = [], json_result = Inr data\<rparr>"

definition completion :: "string \<Rightarrow> json" where
  "completion s = JObj [(''choices'', JArr [JObj [(''text'', JStr s)]])]"

text \<open>An endpoint that gives every request the same outcome.\<close>

definition const_env :: "(exn + response) \<Rightarrow> env" where
  "const_env outcome =
     \<lparr>render = str_format, format_sentence = format_sentence_spec, post = (\<lambda>n p. outcome)\<rparr>"

definition world0 :: world where
  "world0 = \<lparr>now = 0, trace = [], next_client = 0, open_clients = []\<rparr>"

definition cache_with :: "string \<Rightarrow> string \<Rightarrow> ttl_cache" where
  "cache_with k v = cache_setitem 0 get_cache k v"

text \<open>
  \<open>nonempty_choices data\<close>: the payload is a JSON object that has a non-empty list under
  the key \<open>choices\<close>. Every other payload lacks a non-empty list of choices.
\<close>

fun nonempty_choices :: "json \<Rightarrow> bool" where
  "nonempty_choices (JObj kvs) =
     (case map_of kvs ''choices'' of Some (JArr (x # xs)) \<Rightarrow> True | _ \<Rightarrow> False)"
| "nonempty_choices _ = False"

text \<open>
  The payloads on which the test of line 142 holds, so that line 143 raises the error of
  the module: an object without the key \<open>choices\<close> or with an empty list, string or
  object under it; a list that has not the string \<open>choices\<close> as an element; a string in
  which \<open>choices\<close> does not occur.
\<close>

fun empty_container :: "json \<Rightarrow> bool" where
  "empty_container (JArr xs) = (xs = [])"
| "empty_container (JStr s) = (s = [])"
| "empty_container (JObj kvs) = (kvs = [])"
| "empty_container _ = False"

fun domain_error_shape :: "json \<Rightarrow> bool" where
  "domain_error_shape (JObj kvs) =
     (case map_of kvs ''choices'' of None \<Rightarrow> True | Some v \<Rightarrow> empty_container v)"
| "domain_error_shape (JArr xs) = (JStr ''choices'' \<notin> set xs)"
| "domain_error_shape (JStr s) = (\<not> str_contains ''choices'' s)"
| "domain_error_shape _ = False"

text \<open>
  The ways in which request number \<open>n\<close> fails: the transport raises (timeout, connection
  error), the status is not 200, or the rest of the \<open>try\<close> block raises.
\<close>

definition request_fails :: "env \<Rightarrow> string \<Rightarrow> string \<Rightarrow> nat \<Rightarrow> ttl_cache \<Rightarrow> world \<Rightarrow> bool" where
  "request_fails ev file prompt n c w =
     (case post ev n prompt of
        Inl e \<Rightarrow> True
      | Inr r \<Rightarrow> status_code r \<noteq> 200 \<or> isl (fst (after_post ev file prompt r c w)))"

text \<open>A world whose clock shows \<open>t\<close>.\<close>

definition world_at :: "nat \<Rightarrow> world" where
  "world_at t = \<lparr>now = t, trace = [], next_client = 0, open_clients = []\<rparr>"

section \<open>Invariants of the event loop\<close>

fun task_file :: "task \<Rightarrow> string" where
  "task_file (NullSummary f s) = f"
| "task_file (FetchSummary f p hc) = f"

fun is_fetch :: "task \<Rightarrow> bool" where
  "is_fetch (FetchSummary f p hc) = True"
| "is_fetch (NullSummary f s) = False"

text \<open>\<open>tracks t st\<close>: the state \<open>st\<close> is one that the task \<open>t\<close> can be in.\<close>

fun tracks :: "task \<Rightarrow> tstate \<Rightarrow> bool" where
  "tracks t (Created t') = (t' = t)"
| "tracks (FetchSummary f p hc) (Awaiting f' p' n) = (f' = f \<and> p' = p)"
| "tracks (NullSummary f s) (Awaiting f' p' n) = False"
| "tracks (NullSummary f s) (Done r) = (r = (f, s))"
| "tracks (FetchSummary f p hc) (Done r) = (fst r = f)"
| "tracks (FetchSummary f p hc) (Failed e) = True"
| "tracks (NullSummary f s) (Failed e) = False"

fun has_failed :: "tstate \<Rightarrow> bool" where
  "has_failed (Failed e) = True"
| "has_failed _ = False"

text \<open>\<open>no_gaps sched\<close>: in no step of the schedule does time pass between the two cache operations.\<close>

definition no_gaps :: "(nat \<times> nat \<times> nat) list \<Rightarrow> bool" where
  "no_gaps sched = list_all (\<lambda>d. fst (snd d) = 0) sched"

text \<open>\<open>result_for t r\<close>: \<open>r\<close> is a result that the task \<open>t\<close> can have.\<close>

fun result_for :: "task \<Rightarrow> string \<times> string \<Rightarrow> bool" where
  "result_for (NullSummary f s) r = (r = (f, s))"
| "result_for (FetchSummary f p hc) r = (fst r = f)"

text \<open>The events that running the tasks \<open>ts\<close> can add to the trace.\<close>

fun allowed :: "task list \<Rightarrow> event \<Rightarrow> bool" where
  "allowed ts (Post hc f p) = (FetchSummary f p hc \<in> set ts)"
| "allowed ts (ClientCreated c) = False"
| "allowed ts (JsonParsed f) = True"
| "allowed ts (CacheWrite k v) = True"

definition extends :: "task list \<Rightarrow> world \<Rightarrow> world \<Rightarrow> bool" where
  "extends ts w w' =
     (next_client w' = next_client w \<and> open_clients w' = open_clients w \<and>
      (\<exists>evs. trace w' = trace w @ evs \<and> list_all (allowed ts) evs))"

fun post_for :: "string \<Rightarrow> event \<Rightarrow> bool" where
  "post_for f (Post hc f' p) = (f' = f)"
| "post_for f _ = False"

text \<open>The task that the loop of \<open>code_to_text\<close> creates for a file that is not ignored.\<close>

definition task_of :: "string \<Rightarrow> string \<Rightarrow> nat \<Rightarrow> task" where
  "task_of path prompt_code http_client =
     (if length (split_ws prompt_code) > MAX_TOKENS
      then NullSummary path (err_format (length (split_ws prompt_code)))
      else FetchSummary path prompt_code http_client)"

text \<open>\<open>renders ev ignore_files files prompt\<close>: the substitution succeeds on every file that is not ignored.\<close>

definition renders :: "env \<Rightarrow> string list \<Rightarrow> (string \<times> string) list \<Rightarrow> string \<Rightarrow> bool" where
  "renders ev ignore_files files prompt =
     list_all (\<lambda>(path, contents). ignored ignore_files path \<or> \<not> isl (render ev prompt contents)) files"

text \<open>Contents of \<open>n\<close> tokens.\<close>

definition words :: "nat \<Rightarrow> string" where
  "words n = concat (replicate n ''a '')"

text \<open>\<open>uses_client c e\<close>: the event \<open>e\<close> creates no client, and if it is a request, client \<open>c\<close> sends it.\<close>

fun uses_client :: "nat \<Rightarrow> event \<Rightarrow> bool" where
  "uses_client c (Post hc f p) = (hc = c)"
| "uses_client c (ClientCreated c') = False"
| "uses_client c (JsonParsed f) = True"
| "uses_client c (CacheWrite k v) = True"

text \<open>A client is released when it is no longer among the open clients of the world.\<close>

definition released :: "nat \<Rightarrow> world \<Rightarrow> bool" where
  "released c w = (c \<notin> set (open_clients w))"

text \<open>
  \<open>fresh t st\<close>: the task \<open>t\<close> has sent no request yet. \<open>idle ts l\<close>: no task of the loop
  has sent a request yet and the cache is still empty.
\<close>

definition fresh :: "task \<Rightarrow> tstate \<Rightarrow> bool" where
  "fresh t st = (st = Created t \<or> (\<not> is_fetch t \<and> tracks t st))"

definition idle :: "task list \<Rightarrow> loop \<Rightarrow> bool" where
  "idle ts l = (entries (cache l) = [] \<and> list_all2 fresh ts (tasks l))"


section \<open>Properties of \<open>fetch_summary\<close>\<close>

lemma cache_hit_getitem:
  "cache_contains t c k \<Longrightarrow> \<exists>v. cache_lookup t c k = Some v \<and> cache_getitem t c k = Inr v"
  by (auto simp: cache_contains_def cache_getitem_def)

lemma cache_contains_earlier: "cache_contains (t + g) c k \<Longrightarrow> cache_contains t c k"
  by (auto simp: cache_contains_def cache_lookup_def split: option.splits if_splits)

lemma fetch_start_hit:
  "cache_contains (now w + gap) c p \<Longrightarrow>
     \<exists>v. cache_lookup (now w + gap) c p = Some v \<and>
         fetch_start gap f p hc c w = (Finished (f, v), tick gap w)"
  by (auto simp: fetch_start_def cache_contains_earlier dest!: cache_hit_getitem)

lemma fetch_start_hit_now:
  "cache_contains (now w) c p \<Longrightarrow>
     \<exists>v. cache_lookup (now w) c p = Some v \<and> fetch_start 0 f p hc c w = (Finished (f, v), w)"
  using fetch_start_hit [of w 0 c p f hc] by (simp add: tick_def)

lemma fetch_start_miss:
  "\<not> cache_contains (now w) c p \<Longrightarrow>
     fetch_start gap f p hc c w = (Suspended (posts w), log (Post hc f p) w)"
  by (simp add: fetch_start_def)

lemmas eval_defs = const_env_def world0_def cache_with_def reply_def completion_def
  get_cache_def cache_setitem_def cache_contains_def cache_lookup_def cache_getitem_def
  fetch_summary_def fetch_start_def fetch_resume_def after_post_def raise_for_status_def
  choices_missing_def first_choice_text_def strip_sentence_def is_space_def
  log_def tick_def posts_def fallback_def



text \<open>
  Claim C9. When the prompt is not cached and the response has any status other than 200
  (201 and 204 included), \<open>fetch_summary\<close> returns the fallback string with the cache as
  it was, and the only event is the request itself: the body is not parsed and nothing is
  written to the cache.
\<close>

theorem fetch_summary_not_200:
  "\<not> cache_contains (now w) c prompt \<and> post ev (posts w) prompt = Inr r \<and> status_code r \<noteq> 200 \<longrightarrow>
     fetch_summary ev gap dt file prompt hc c w
       = (Inr (file, fallback), c, tick dt (log (Post hc file prompt) w))"
  by (simp add: fetch_summary_def fetch_start_miss fetch_resume_def after_post_def)

theorem fetch_summary_not_200_witness:
  "\<not> cache_contains (now world0) get_cache ''P'' \<and>
   post (const_env (Inr (reply 204 (completion ''ok'')))) (posts world0) ''P''
     = Inr (reply 204 (completion ''ok'')) \<and>
   status_code (reply 204 (completion ''ok'')) \<noteq> 200 \<and>
   fetch_summary (const_env (Inr (reply 204 (completion ''ok'')))) 0 1 ''a.py'' ''P'' 0 get_cache world0
     = (Inr (''a.py'', ''Error generating file summary.''), get_cache,
        \<lparr>now = 1, trace = [Post 0 ''a.py'' ''P''], next_client = 0, open_clients = []\<rparr>)"
  using fetch_summary_not_200 [of world0 get_cache "''P''" "const_env (Inr (reply 204 (completion ''ok'')))"
      "reply 204 (completion ''ok'')" 0 1 "''a.py''" 0]
  by (simp add: const_env_def world0_def reply_def get_cache_def cache_contains_def cache_lookup_def
      posts_def fallback_def log_def tick_def)

lemma py_first_text_shape:
  "py_first ch = Inr c0 \<Longrightarrow> py_getitem c0 ''text'' = Inr summary \<Longrightarrow> \<exists>x xs. ch = JArr (x # xs)"
proof (cases ch)
  case (JStr s)
  assume "py_first ch = Inr c0" "py_getitem c0 ''text'' = Inr summary"
  with JStr show ?thesis by (cases s) auto
next
  case (JArr xs)
  assume "py_first ch = Inr c0"
  with JArr show ?thesis by (cases xs) auto
qed auto

lemma first_choice_text_shape:
  assumes "first_choice_text data = Inr summary"
  shows "nonempty_choices data"
proof (cases data)
  case (JObj kvs)
  with assms obtain ch c0 where ch: "map_of kvs ''choices'' = Some ch"
    and c0: "py_first ch = Inr c0" "py_getitem c0 ''text'' = Inr summary"
    by (auto simp: first_choice_text_def split: option.splits sum.splits)
  from py_first_text_shape [OF c0] ch JObj show ?thesis by auto
qed (use assms in \<open>simp_all add: first_choice_text_def\<close>)

lemma map_of_key: "map_of kvs k = Some v \<Longrightarrow> k \<in> fst ` set kvs"
  using map_of_SomeD [of kvs k v] by force

lemma py_len_zero: "py_len v = Inr n \<Longrightarrow> (n = 0) = empty_container v"
  by (cases v) auto

lemma py_len_raises: "py_len v = Inl e \<Longrightarrow> \<not> empty_container v \<and> e = TypeError"
  by (cases v) auto

lemma choices_missing_shape: "(choices_missing data = Inr True) = domain_error_shape data"
proof (cases data)
  case (JObj kvs)
  show ?thesis
  proof (cases "map_of kvs ''choices''")
    case None
    then have "''choices'' \<notin> fst ` set kvs"
      by (simp add: map_of_eq_None_iff)
    with JObj None show ?thesis
      by (simp add: choices_missing_def)
  next
    case (Some v)
    from map_of_key [OF Some] JObj Some show ?thesis
      by (cases "py_len v") (auto simp: choices_missing_def dest: py_len_zero py_len_raises)
  qed
qed (simp_all add: choices_missing_def split: bool.splits)

lemma choices_missing_exn: "choices_missing data = Inl e \<Longrightarrow> e \<in> {TypeError, KeyError}"
proof (cases data)
  case (JObj kvs)
  assume a: "choices_missing data = Inl e"
  show ?thesis
  proof (cases "map_of kvs ''choices''")
    case None
    then have "''choices'' \<notin> fst ` set kvs"
      by (simp add: map_of_eq_None_iff)
    with a JObj show ?thesis by (simp add: choices_missing_def)
  next
    case (Some v)
    from a map_of_key [OF Some] JObj Some show ?thesis
      by (cases "py_len v") (auto simp: choices_missing_def dest: py_len_raises)
  qed
qed (auto simp: choices_missing_def split: bool.splits)

lemma py_getitem_exn: "py_getitem v k = Inl e \<Longrightarrow> e \<in> {TypeError, KeyError}"
  by (cases v) (auto split: option.splits)

lemma py_first_exn: "py_first v = Inl e \<Longrightarrow> e \<in> {TypeError, KeyError, IndexError}"
  by (cases v rule: py_first.cases) auto

lemma first_choice_text_exn:
  "first_choice_text data = Inl e \<Longrightarrow> e \<in> {TypeError, KeyError, IndexError}"
  by (auto simp: first_choice_text_def split: sum.splits dest: py_getitem_exn py_first_exn)

lemma after_post_malformed:
  assumes "status_code r = 200" and "json_result r = Inr data" and "\<not> nonempty_choices data"
  shows "\<exists>e. after_post ev f p r c w = (Inl e, c, log (JsonParsed f) w) \<and>
             (e = OpenAIError) = domain_error_shape data \<and>
             e \<in> {OpenAIError, TypeError, KeyError, IndexError}"
proof (cases "choices_missing data")
  case (Inl e)
  from choices_missing_exn [OF Inl] have "e \<noteq> OpenAIError" by auto
  with Inl choices_missing_shape [of data] choices_missing_exn [OF Inl] assms(1,2) show ?thesis
    by (auto simp: after_post_def raise_for_status_def)
next
  case (Inr b)
  show ?thesis
  proof (cases b)
    case True
    with Inr choices_missing_shape [of data] assms(1,2) show ?thesis
      by (simp add: after_post_def raise_for_status_def)
  next
    case False
    with Inr choices_missing_shape [of data] have n: "\<not> domain_error_shape data" by simp
    from assms(3) first_choice_text_shape [of data] obtain e where e: "first_choice_text data = Inl e"
      by (cases "first_choice_text data") auto
    from first_choice_text_exn [OF e] have "e \<noteq> OpenAIError" by auto
    with first_choice_text_exn [OF e] e n False Inr assms(1,2) show ?thesis
      by (auto simp: after_post_def raise_for_status_def)
  qed
qed

text \<open>
  Claim C5, amended. For every response with status 200 whose parsed payload lacks a
  non-empty list of choices, the \<open>try\<close> block raises an exception, the handler catches
  it, and \<open>fetch_summary\<close> returns the path with the fallback string, the cache as it was:
  the same result as for a transport failure. The exception is the error of the module
  exactly when the test of line 142 holds (no key \<open>choices\<close>, or an empty list, string or
  object under it, or a list or string payload without \<open>choices\<close> in it); for every
  other such payload it is the TypeError, KeyError or IndexError of the test or of the
  subscripts. With any other status nothing is raised: the block returns the fallback.
\<close>

theorem fetch_summary_malformed_payload:
  "(\<not> cache_contains (now w) c prompt \<and> post ev (posts w) prompt = Inr r \<and>
    status_code r = 200 \<and> json_result r = Inr data \<and> \<not> nonempty_choices data \<longrightarrow>
      (\<exists>e. fst (after_post ev file prompt r c (tick dt (log (Post hc file prompt) w))) = Inl e \<and>
           (e = OpenAIError) = domain_error_shape data \<and>
           e \<in> {OpenAIError, TypeError, KeyError, IndexError}) \<and>
      fetch_summary ev gap dt file prompt hc c w
        = (Inr (file, fallback), c, log (JsonParsed file) (tick dt (log (Post hc file prompt) w)))) \<and>
   (status_code r \<noteq> 200 \<longrightarrow>
      fst (after_post ev file prompt r c (tick dt (log (Post hc file prompt) w))) = Inr fallback)"
proof (intro conjI impI)
  let ?w = "tick dt (log (Post hc file prompt) w)"
  assume a: "\<not> cache_contains (now w) c prompt \<and> post ev (posts w) prompt = Inr r \<and>
   status_code r = 200 \<and> json_result r = Inr data \<and> \<not> nonempty_choices data"
  then have st: "status_code r = 200" and js: "json_result r = Inr data"
    and ne: "\<not> nonempty_choices data"
    by simp_all
  from after_post_malformed [OF st js ne, of ev "file" prompt c ?w]
  obtain e where e: "after_post ev file prompt r c ?w = (Inl e, c, log (JsonParsed file) ?w)"
    and s: "(e = OpenAIError) = domain_error_shape data"
    and k: "e \<in> {OpenAIError, TypeError, KeyError, IndexError}"
    by blast
  from e s k show "\<exists>e. fst (after_post ev file prompt r c ?w) = Inl e \<and>
      (e = OpenAIError) = domain_error_shape data \<and>
      e \<in> {OpenAIError, TypeError, KeyError, IndexError}"
    by simp
  from a e show "fetch_summary ev gap dt file prompt hc c w
      = (Inr (file, fallback), c, log (JsonParsed file) ?w)"
    by (simp add: fetch_summary_def fetch_start_miss fetch_resume_def)
next
  assume "status_code r \<noteq> 200"
  then show "fst (after_post ev file prompt r c (tick dt (log (Post hc file prompt) w)))
      = Inr fallback"
    by (simp add: after_post_def)
qed

theorem fetch_summary_malformed_payload_witness:
  "(\<not> cache_contains (now world0) get_cache ''P'' \<and>
    post (const_env (Inr (reply 200 (JObj [(''choices'', JArr [])])))) (posts world0) ''P''
      = Inr (reply 200 (JObj [(''choices'', JArr [])])) \<and>
    status_code (reply 200 (JObj [(''choices'', JArr [])])) = 200 \<and>
    json_result (reply 200 (JObj [(''choices'', JArr [])])) = Inr (JObj [(''choices'', JArr [])]) \<and>
    \<not> nonempty_choices (JObj [(''choices'', JArr [])])) \<and>
   domain_error_shape (JObj [(''choices'', JArr [])]) \<and>
   fetch_summary (const_env (Inr (reply 200 (JObj [(''choices'', JArr [])])))) 0 1 ''a.py'' ''P'' 0
       get_cache world0
     = (Inr (''a.py'', fallback), get_cache,
        log (JsonParsed ''a.py'') (tick 1 (log (Post 0 ''a.py'' ''P'') world0)))"
proof -
  let ?r = "reply 200 (JObj [(''choices'', JArr [])])"
  have h: "\<not> cache_contains (now world0) get_cache ''P'' \<and>
    post (const_env (Inr ?r)) (posts world0) ''P'' = Inr ?r \<and>
    status_code ?r = 200 \<and> json_result ?r = Inr (JObj [(''choices'', JArr [])]) \<and>
    \<not> nonempty_choices (JObj [(''choices'', JArr [])])"
    by (simp add: const_env_def reply_def get_cache_def cache_contains_def cache_lookup_def)
  have d: "domain_error_shape (JObj [(''choices'', JArr [])])" by simp
  from fetch_summary_malformed_payload [of world0 get_cache "''P''" "const_env (Inr ?r)" ?r
      "JObj [(''choices'', JArr [])]" "''a.py''" 1 0 0] h d
  show ?thesis by blast
qed

text \<open>
  Claim C5 as stated fails: with status 200, a payload that has \<open>null\<close> under \<open>choices\<close>
  and a payload that is \<open>null\<close> lack a non-empty list of choices, and the \<open>try\<close> block
  raises a TypeError on them, not the error of the module; with status 204 nothing is
  raised at all.
\<close>

theorem after_post_null_choices:
  "\<not> nonempty_choices (JObj [(''choices'', JNull)]) \<and>
   fst (after_post (const_env (Inr (reply 200 (JObj [(''choices'', JNull)])))) ''a.py'' ''P''
          (reply 200 (JObj [(''choices'', JNull)])) get_cache world0) = Inl TypeError \<and>
   \<not> nonempty_choices JNull \<and>
   fst (after_post (const_env (Inr (reply 200 JNull))) ''a.py'' ''P''
          (reply 200 JNull) get_cache world0) = Inl TypeError \<and>
   fst (after_post (const_env (Inr (reply 204 (JObj [])))) ''a.py'' ''P''
          (reply 204 (JObj [])) get_cache world0) = Inr ''Error generating file summary.''"
  by (simp add: after_post_def raise_for_status_def reply_def choices_missing_def fallback_def)

lemma cache_setitem_entries:
  "\<exists>kept. entries (cache_setitem t c k v) = kept @ [(k, v, t + ttl c)] \<and>
          set kept \<subseteq> set (entries c) \<and> k \<notin> fst ` set kept"
proof -
  let ?live = "filter (\<lambda>e. t < snd (snd e)) (entries c)"
  show ?thesis
  proof (cases "k \<in> set (map fst ?live)")
    case True
    then show ?thesis
      by (intro exI [of _ "filter (\<lambda>e. fst e \<noteq> k) ?live"]) (auto simp: cache_setitem_def)
  next
    case False
    have "set (drop n ?live) \<subseteq> set ?live" for n
      by (rule set_drop_subset)
    with False show ?thesis
      by (intro exI [of _ "drop (Suc (length ?live) - maxsize c) ?live"])
         (auto simp: cache_setitem_def Let_def dest!: in_set_dropD)
  qed
qed

lemma after_post_cases:
  "after_post ev f p r c w = (res, c', w') \<Longrightarrow>
     c' = c \<or>
     (\<exists>data summary s. status_code r = 200 \<and> json_result r = Inr data \<and>
        first_choice_text data = Inr summary \<and> format_sentence ev summary = Inr s \<and>
        res = Inr s \<and> c' = cache_setitem (now w) c p s \<and>
        trace w' = trace w @ [JsonParsed f, CacheWrite p s])"
  by (auto simp: after_post_def Let_def log_def split: if_splits sum.splits bool.splits)

lemma after_post_raises:
  "after_post ev f p r c w = (Inl e, c', w') \<Longrightarrow> c' = c"
  by (auto simp: after_post_def Let_def split: if_splits sum.splits bool.splits)

lemma find_last_key:
  "k \<notin> fst ` set kept \<Longrightarrow> find (\<lambda>e. fst e = k) (kept @ [(k, v, x)]) = Some (k, v, x)"
  by (induction kept) auto

lemma cache_setitem_lookup:
  assumes "0 < ttl c"
  shows "cache_lookup t (cache_setitem t c k v) k = Some v"
proof -
  from cache_setitem_entries [of t c k v] obtain kept
    where "entries (cache_setitem t c k v) = kept @ [(k, v, t + ttl c)]" and "k \<notin> fst ` set kept"
    by blast
  with assms show ?thesis
    by (simp add: cache_lookup_def find_last_key)
qed

lemma nonempty_choices_present: "nonempty_choices data \<Longrightarrow> choices_missing data = Inr False"
proof (cases data)
  case (JObj kvs)
  assume n: "nonempty_choices data"
  with JObj obtain x xs where m: "map_of kvs ''choices'' = Some (JArr (x # xs))"
    by (auto split: option.splits json.splits list.splits)
  from map_of_key [OF m] JObj m show ?thesis
    by (simp add: choices_missing_def)
qed simp_all

lemma after_post_success:
  assumes "status_code r = 200" and "json_result r = Inr data"
    and "first_choice_text data = Inr summary" and "format_sentence ev summary = Inr s"
  shows "after_post ev f p r c w
    = (Inr s, cache_setitem (now w) c p s, log (CacheWrite p s) (log (JsonParsed f) w))"
  using assms nonempty_choices_present [OF first_choice_text_shape [OF assms(3)]]
  by (simp add: after_post_def raise_for_status_def log_def)

lemma fetch_summary_frame:
  assumes run: "fetch_summary ev gap dt file prompt hc c w = (res, c', w')"
  shows "c' = c \<or>
     (\<exists>r data summary s.
        \<not> cache_contains (now w) c prompt \<and> post ev (posts w) prompt = Inr r \<and>
        status_code r = 200 \<and> json_result r = Inr data \<and>
        first_choice_text data = Inr summary \<and> format_sentence ev summary = Inr s \<and>
        res = Inr (file, s) \<and>
        c' = cache_setitem (now w + dt) c prompt s \<and>
        trace w' = trace w @ [Post hc file prompt, JsonParsed file, CacheWrite prompt s] \<and>
        (\<exists>kept. entries c' = kept @ [(prompt, s, now w + dt + ttl c)] \<and>
                set kept \<subseteq> set (entries c) \<and> prompt \<notin> fst ` set kept))"
proof (cases "cache_contains (now w) c prompt")
  case True
  with run show ?thesis
    by (auto simp: fetch_summary_def fetch_start_def split: sum.splits)
next
  case False
  let ?w1 = "tick dt (log (Post hc file prompt) w)"
  show ?thesis
  proof (cases "post ev (posts w) prompt")
    case (Inl e)
    with run False show ?thesis
      by (simp add: fetch_summary_def fetch_start_miss fetch_resume_def)
  next
    case (Inr r)
    obtain t c1 w1 where ap: "after_post ev file prompt r c ?w1 = (t, c1, w1)"
      by (metis prod_cases3)
    with run False Inr have c1: "c' = c1" and w1: "w' = w1"
      and res: "res = Inr (file, case t of Inl e \<Rightarrow> fallback | Inr s \<Rightarrow> s)"
      by (auto simp: fetch_summary_def fetch_start_miss fetch_resume_def split: sum.splits)
    from after_post_cases [OF ap] show ?thesis
    proof
      assume "c1 = c"
      with c1 show ?thesis by simp
    next
      assume "\<exists>data summary s. status_code r = 200 \<and> json_result r = Inr data \<and>
        first_choice_text data = Inr summary \<and> format_sentence ev summary = Inr s \<and>
        t = Inr s \<and> c1 = cache_setitem (now ?w1) c prompt s \<and>
        trace w1 = trace ?w1 @ [JsonParsed file, CacheWrite prompt s]"
      then obtain data summary s where d: "status_code r = 200" "json_result r = Inr data"
        "first_choice_text data = Inr summary" "format_sentence ev summary = Inr s"
        "t = Inr s" "c1 = cache_setitem (now ?w1) c prompt s"
        "trace w1 = trace ?w1 @ [JsonParsed file, CacheWrite prompt s]"
        by blast
      have n: "now ?w1 = now w + dt" and tr: "trace ?w1 = trace w @ [Post hc file prompt]"
        by (simp_all add: tick_def log_def)
      from cache_setitem_entries [of "now w + dt" c prompt s]
      obtain kept where k: "entries (cache_setitem (now w + dt) c prompt s)
            = kept @ [(prompt, s, now w + dt + ttl c)]"
          "set kept \<subseteq> set (entries c)" "prompt \<notin> fst ` set kept"
        by blast
      show ?thesis
        using False Inr d c1 w1 res n tr k by auto
    qed
  qed
qed

lemma fetch_summary_success:
  assumes "\<not> cache_contains (now w) c prompt" and "post ev (posts w) prompt = Inr r"
    and "status_code r = 200" and "json_result r = Inr data"
    and "first_choice_text data = Inr summary" and "format_sentence ev summary = Inr s"
  shows "fetch_summary ev gap dt file prompt hc c w
    = (Inr (file, s), cache_setitem (now w + dt) c prompt s,
       log (CacheWrite prompt s) (log (JsonParsed file) (tick dt (log (Post hc file prompt) w))))"
proof -
  let ?w1 = "tick dt (log (Post hc file prompt) w)"
  have "now ?w1 = now w + dt" by (simp add: tick_def log_def)
  with after_post_success [OF assms(3-6), of "file" prompt c ?w1] assms(1,2) show ?thesis
    by (simp add: fetch_summary_def fetch_start_miss fetch_resume_def)
qed

text \<open>
  Claim C6. \<open>fetch_summary\<close> returns the cache as it was, on every path but one: the prompt
  was not cached, the response had status 200, the text of the first choice was extracted
  and normalized. On that path, and whenever these conditions hold, \<open>cache[prompt] =
  summary\<close> runs once: the result is the normalized summary, the new cache ends with the
  one entry for the rendered prompt and the normalized summary, before it only entries
  that the old cache had, under other keys, and a lookup of the prompt finds the summary.
\<close>

theorem fetch_summary_cache_frame:
  "(fetch_summary ev gap dt file prompt hc c w = (res, c', w') \<longrightarrow>
     c' = c \<or>
     (\<exists>r data summary s.
        \<not> cache_contains (now w) c prompt \<and> post ev (posts w) prompt = Inr r \<and>
        status_code r = 200 \<and> json_result r = Inr data \<and>
        first_choice_text data = Inr summary \<and> format_sentence ev summary = Inr s \<and>
        res = Inr (file, s) \<and>
        c' = cache_setitem (now w + dt) c prompt s \<and>
        trace w' = trace w @ [Post hc file prompt, JsonParsed file, CacheWrite prompt s] \<and>
        (\<exists>kept. entries c' = kept @ [(prompt, s, now w + dt + ttl c)] \<and>
                set kept \<subseteq> set (entries c) \<and> prompt \<notin> fst ` set kept))) \<and>
   (\<not> cache_contains (now w) c prompt \<and> post ev (posts w) prompt = Inr r0 \<and>
    status_code r0 = 200 \<and> json_result r0 = Inr data0 \<and>
    first_choice_text data0 = Inr summary0 \<and> format_sentence ev summary0 = Inr s0 \<longrightarrow>
      fetch_summary ev gap dt file prompt hc c w
        = (Inr (file, s0), cache_setitem (now w + dt) c prompt s0,
           log (CacheWrite prompt s0)
             (log (JsonParsed file) (tick dt (log (Post hc file prompt) w)))) \<and>
      (\<exists>kept. entries (cache_setitem (now w + dt) c prompt s0)
                 = kept @ [(prompt, s0, now w + dt + ttl c)] \<and>
              set kept \<subseteq> set (entries c) \<and> prompt \<notin> fst ` set kept) \<and>
      (0 < ttl c \<longrightarrow>
         cache_lookup (now w + dt) (cache_setitem (now w + dt) c prompt s0) prompt = Some s0))"
proof (intro conjI impI)
  assume "fetch_summary ev gap dt file prompt hc c w = (res, c', w')"
  then show "c' = c \<or>
     (\<exists>r data summary s.
        \<not> cache_contains (now w) c prompt \<and> post ev (posts w) prompt = Inr r \<and>
        status_code r = 200 \<and> json_result r = Inr data \<and>
        first_choice_text data = Inr summary \<and> format_sentence ev summary = Inr s \<and>
        res = Inr (file, s) \<and>
        c' = cache_setitem (now w + dt) c prompt s \<and>
        trace w' = trace w @ [Post hc file prompt, JsonParsed file, CacheWrite prompt s] \<and>
        (\<exists>kept. entries c' = kept @ [(prompt, s, now w + dt + ttl c)] \<and>
                set kept \<subseteq> set (entries c) \<and> prompt \<notin> fst ` set kept))"
    by (rule fetch_summary_frame)
next
  assume "\<not> cache_contains (now w) c prompt \<and> post ev (posts w) prompt = Inr r0 \<and>
    status_code r0 = 200 \<and> json_result r0 = Inr data0 \<and>
    first_choice_text data0 = Inr summary0 \<and> format_sentence ev summary0 = Inr s0"
  then have "\<not> cache_contains (now w) c prompt" and "post ev (posts w) prompt = Inr r0"
    and "status_code r0 = 200" and "json_result r0 = Inr data0"
    and "first_choice_text data0 = Inr summary0" and "format_sentence ev summary0 = Inr s0"
    by simp_all
  then show "fetch_summary ev gap dt file prompt hc c w
        = (Inr (file, s0), cache_setitem (now w + dt) c prompt s0,
           log (CacheWrite prompt s0)
             (log (JsonParsed file) (tick dt (log (Post hc file prompt) w))))"
    by (rule fetch_summary_success)
next
  show "\<exists>kept. entries (cache_setitem (now w + dt) c prompt s0)
                 = kept @ [(prompt, s0, now w + dt + ttl c)] \<and>
              set kept \<subseteq> set (entries c) \<and> prompt \<notin> fst ` set kept"
    by (rule cache_setitem_entries)
next
  assume "0 < ttl c"
  then show "cache_lookup (now w + dt) (cache_setitem (now w + dt) c prompt s0) prompt = Some s0"
    by (rule cache_setitem_lookup)
qed

theorem fetch_summary_cache_frame_witness:
  "(\<not> cache_contains (now world0) get_cache ''P'' \<and>
    post (const_env (Inr (reply 200 (completion '' a summary '')))) (posts world0) ''P''
      = Inr (reply 200 (completion '' a summary '')) \<and>
    status_code (reply 200 (completion '' a summary '')) = 200 \<and>
    json_result (reply 200 (completion '' a summary '')) = Inr (completion '' a summary '') \<and>
    first_choice_text (completion '' a summary '') = Inr (JStr '' a summary '') \<and>
    format_sentence (const_env (Inr (reply 200 (completion '' a summary ''))))
      (JStr '' a summary '') = Inr ''a summary'') \<and>
   fetch_summary (const_env (Inr (reply 200 (completion '' a summary '')))) 0 2 ''a.py'' ''P'' 0
       get_cache world0
     = (Inr (''a.py'', ''a summary''), cache_setitem (now world0 + 2) get_cache ''P'' ''a summary'',
        log (CacheWrite ''P'' ''a summary'')
          (log (JsonParsed ''a.py'') (tick 2 (log (Post 0 ''a.py'' ''P'') world0)))) \<and>
   entries (cache_setitem (now world0 + 2) get_cache ''P'' ''a summary'')
     = [(''P'', ''a summary'', 602)] \<and>
   cache_setitem (now world0 + 2) get_cache ''P'' ''a summary'' \<noteq> get_cache"
proof -
  let ?r = "reply 200 (completion '' a summary '')"
  let ?ev = "const_env (Inr ?r)"
  have h: "\<not> cache_contains (now world0) get_cache ''P'' \<and>
    post ?ev (posts world0) ''P'' = Inr ?r \<and> status_code ?r = 200 \<and>
    json_result ?r = Inr (completion '' a summary '') \<and>
    first_choice_text (completion '' a summary '') = Inr (JStr '' a summary '') \<and>
    format_sentence ?ev (JStr '' a summary '') = Inr ''a summary''"
    by (simp add: eval_defs)
  have en: "entries (cache_setitem (now world0 + 2) get_cache ''P'' ''a summary'')
      = [(''P'', ''a summary'', 602)]"
    by (simp add: get_cache_def cache_setitem_def world0_def)
  have ne: "cache_setitem (now world0 + 2) get_cache ''P'' ''a summary'' \<noteq> get_cache"
    by (simp add: get_cache_def cache_setitem_def world0_def)
  from fetch_summary_cache_frame [of ?ev 0 2 "''a.py''" "''P''" 0 get_cache world0 _ _ _
      ?r "completion '' a summary ''" "JStr '' a summary ''" "''a summary''"] h
  have "fetch_summary ?ev 0 2 ''a.py'' ''P'' 0 get_cache world0
     = (Inr (''a.py'', ''a summary''), cache_setitem (now world0 + 2) get_cache ''P'' ''a summary'',
        log (CacheWrite ''P'' ''a summary'')
          (log (JsonParsed ''a.py'') (tick 2 (log (Post 0 ''a.py'' ''P'') world0))))"
    by blast
  with h en ne show ?thesis by blast
qed

section \<open>Failures of a fetch\<close>

lemma fetch_resume_fails:
  "request_fails ev f p n c w \<Longrightarrow> \<exists>w'. fetch_resume ev f p (post ev n p) c w = ((f, fallback), c, w')"
proof (cases "post ev n p")
  case (Inl e)
  then show ?thesis by (simp add: fetch_resume_def)
next
  case (Inr r)
  assume "request_fails ev f p n c w"
  with Inr have f: "status_code r \<noteq> 200 \<or> isl (fst (after_post ev f p r c w))"
    by (simp add: request_fails_def)
  obtain t c1 w1 where ap: "after_post ev f p r c w = (t, c1, w1)"
    by (metis prod_cases3)
  show ?thesis
  proof (cases "status_code r = 200")
    case False
    with Inr show ?thesis by (simp add: fetch_resume_def after_post_def)
  next
    case True
    with f ap obtain e where "t = Inl e" by (cases t) auto
    with ap after_post_raises [of ev f p r c w e c1 w1] Inr show ?thesis
      by (simp add: fetch_resume_def)
  qed
qed

lemma fetch_summary_miss_absorbs:
  assumes "\<not> cache_contains (now w) c prompt"
  shows "\<exists>text. fst (fetch_summary ev gap dt file prompt hc c w) = Inr (file, text)"
    and "request_fails ev file prompt (posts w) c (tick dt (log (Post hc file prompt) w)) \<Longrightarrow>
      fst (fetch_summary ev gap dt file prompt hc c w) = Inr (file, fallback) \<and>
      fst (snd (fetch_summary ev gap dt file prompt hc c w)) = c"
proof -
  from assms show "\<exists>text. fst (fetch_summary ev gap dt file prompt hc c w) = Inr (file, text)"
    by (auto simp: fetch_summary_def fetch_start_miss fetch_resume_def split: sum.splits prod.splits)
next
  assume "request_fails ev file prompt (posts w) c (tick dt (log (Post hc file prompt) w))"
  then obtain w' where "fetch_resume ev file prompt (post ev (posts w) prompt) c
      (tick dt (log (Post hc file prompt) w)) = ((file, fallback), c, w')"
    using fetch_resume_fails by blast
  with assms show "fst (fetch_summary ev gap dt file prompt hc c w) = Inr (file, fallback) \<and>
      fst (snd (fetch_summary ev gap dt file prompt hc c w)) = c"
    by (simp add: fetch_summary_def fetch_start_miss)
qed

lemma step_failure_isolated:
  assumes "i < length (tasks l)" and "tasks l ! i = Awaiting file prompt n"
    and "request_fails ev file prompt n (cache l) (world l)"
  shows "tasks (step ev gap i l) = (tasks l)[i := Done (file, fallback)]"
    and "cache (step ev gap i l) = cache l"
proof -
  from assms(3) obtain w' where "fetch_resume ev file prompt (post ev n prompt) (cache l) (world l)
      = ((file, fallback), cache l, w')"
    using fetch_resume_fails by blast
  with assms(1,2) show "tasks (step ev gap i l) = (tasks l)[i := Done (file, fallback)]"
    and "cache (step ev gap i l) = cache l"
    by (simp_all add: step_def)
qed

text \<open>
  The only exception that leaves \<open>fetch_summary\<close> is the KeyError of the lookup in line
  117, when the prompt is in the cache at the membership test and has expired at the
  lookup.
\<close>

lemma fetch_summary_raises_only:
  assumes "fst (fetch_summary ev gap dt file prompt hc c w) = Inl e"
  shows "e = KeyError \<and> cache_contains (now w) c prompt \<and>
         \<not> cache_contains (now w + gap) c prompt"
proof (cases "cache_contains (now w) c prompt")
  case False
  from fetch_summary_miss_absorbs(1) [OF False, of ev gap dt "file" hc] assms show ?thesis
    by auto
next
  case True
  show ?thesis
  proof (cases "cache_contains (now w + gap) c prompt")
    case t: True
    from fetch_start_hit [OF t, of "file" hc] assms show ?thesis
      by (auto simp: fetch_summary_def)
  next
    case False
    with True assms show ?thesis
      by (auto simp: fetch_summary_def fetch_start_def cache_getitem_def cache_contains_def
          split: option.splits)
  qed
qed

text \<open>
  Claim C2. \<open>fetch_summary\<close> does raise: the cache holds the prompt, with an entry that
  expires at time 600; the membership test at time 599 finds it, the lookup at time 600
  does not, and the KeyError leaves the function, because the lookup is outside the
  \<open>try\<close> block whose handler turns every exception of the request into the fallback.
\<close>

theorem fetch_summary_expiry_raises:
  "entries (cache_with ''P'' ''cached summary'') = [(''P'', ''cached summary'', 600)] \<and>
   cache_contains (now (world_at 599)) (cache_with ''P'' ''cached summary'') ''P'' \<and>
   cache_getitem (now (world_at 599) + 1) (cache_with ''P'' ''cached summary'') ''P''
     = Inl KeyError \<and>
   fetch_summary (const_env (Inr (reply 200 (completion ''ok'')))) 1 0 ''a.py'' ''P'' 0
       (cache_with ''P'' ''cached summary'') (world_at 599)
     = (Inl KeyError, cache_with ''P'' ''cached summary'', world_at 600)"
  by (simp add: eval_defs world_at_def)

section \<open>Properties of the event loop\<close>

lemma extends_refl: "extends ts w w"
  by (simp add: extends_def)

lemma extends_trans: "extends ts w w1 \<Longrightarrow> extends ts w1 w2 \<Longrightarrow> extends ts w w2"
  by (auto simp: extends_def)

lemma extends_tick: "extends ts w (tick dt w)"
  by (simp add: extends_def tick_def)

lemma extends_log: "allowed ts e \<Longrightarrow> extends ts w (log e w)"
  by (simp add: extends_def log_def)

lemma extends_mono: "extends ts w w' \<Longrightarrow> set ts \<subseteq> set ts' \<Longrightarrow> extends ts' w w'"
proof -
  assume e: "extends ts w w'" and s: "set ts \<subseteq> set ts'"
  have "allowed ts x \<Longrightarrow> allowed ts' x" for x
    using s by (cases x) auto
  then have "list_all (allowed ts) evs \<Longrightarrow> list_all (allowed ts') evs" for evs
    by (auto simp: list_all_iff)
  with e show ?thesis
    by (auto simp: extends_def)
qed

lemma after_post_extends: "after_post ev f p r c w = (res, c', w') \<Longrightarrow> extends ts w w'"
  by (auto simp: after_post_def Let_def log_def extends_def split: if_splits sum.splits bool.splits)

lemma fetch_resume_extends:
  "fetch_resume ev f p out c w = (r, c', w') \<Longrightarrow> extends ts w w' \<and> fst r = f"
  by (auto simp: fetch_resume_def extends_refl split: sum.splits prod.splits dest: after_post_extends)

lemma fetch_start_cases:
  "(\<exists>v. fetch_start gap f p hc c w = (Finished (f, v), tick gap w)) \<or>
   (\<exists>e. fetch_start gap f p hc c w = (Raised e, tick gap w)) \<or>
   fetch_start gap f p hc c w = (Suspended (posts w), log (Post hc f p) w)"
  by (cases "cache_getitem (now w + gap) c p") (simp_all add: fetch_start_def)

lemma fetch_start_cases_now:
  "(\<exists>v. fetch_start 0 f p hc c w = (Finished (f, v), w)) \<or>
   fetch_start 0 f p hc c w = (Suspended (posts w), log (Post hc f p) w)"
  using fetch_start_hit_now [of w c p f hc] fetch_start_miss [of w c p 0 f hc] by blast

lemma step_inv:
  assumes "list_all2 tracks ts (tasks l)"
  shows "list_all2 tracks ts (tasks (step ev gap i l)) \<and>
         extends ts (world l) (world (step ev gap i l))"
proof (cases "i < length (tasks l)")
  case False
  with assms show ?thesis by (simp add: step_def extends_refl)
next
  case True
  from assms have len: "length ts = length (tasks l)"
    by (rule list_all2_lengthD)
  from assms True len have tr: "tracks (ts ! i) (tasks l ! i)"
    by (simp add: list_all2_nthD2)
  have upd: "tracks (ts ! i) st \<Longrightarrow> list_all2 tracks ts ((tasks l)[i := st])" for st
    using list_all2_update_cong [OF assms, of "ts ! i" st i] by simp
  from True len have mem: "ts ! i \<in> set ts" by simp
  show ?thesis
  proof (cases "tasks l ! i")
    case (Created t)
    with tr have t: "ts ! i = t" by simp
    show ?thesis
    proof (cases t)
      case (NullSummary f s)
      with Created True t upd [of "Done (f, s)"] show ?thesis
        by (simp add: step_def null_summary_def extends_refl)
    next
      case (FetchSummary f p hc)
      from fetch_start_cases [of gap f p hc "cache l" "world l"] show ?thesis
      proof (elim disjE exE)
        fix v
        assume "fetch_start gap f p hc (cache l) (world l) = (Finished (f, v), tick gap (world l))"
        with Created True t FetchSummary upd [of "Done (f, v)"] show ?thesis
          by (simp add: step_def extends_tick)
      next
        fix e
        assume "fetch_start gap f p hc (cache l) (world l) = (Raised e, tick gap (world l))"
        with Created True t FetchSummary upd [of "Failed e"] show ?thesis
          by (simp add: step_def extends_tick)
      next
        assume s: "fetch_start gap f p hc (cache l) (world l)
            = (Suspended (posts (world l)), log (Post hc f p) (world l))"
        from mem t FetchSummary have "allowed ts (Post hc f p)" by simp
        with s Created True t FetchSummary upd [of "Awaiting f p (posts (world l))"] show ?thesis
          by (simp add: step_def extends_log)
      qed
    qed
  next
    case (Awaiting f p n)
    obtain r c' w' where fr: "fetch_resume ev f p (post ev n p) (cache l) (world l) = (r, c', w')"
      by (metis prod_cases3)
    from fetch_resume_extends [OF fr, of ts] have e: "extends ts (world l) w'" and r: "fst r = f"
      by simp_all
    from tr Awaiting r have "tracks (ts ! i) (Done r)"
      by (cases "ts ! i") auto
    with fr Awaiting True e upd [of "Done r"] show ?thesis
      by (simp add: step_def)
  next
    case (Done r)
    with assms True show ?thesis by (simp add: step_def extends_refl)
  next
    case (Failed e)
    with assms True show ?thesis by (simp add: step_def extends_refl)
  qed
qed

lemma start_task_inv:
  assumes "list_all2 tracks ts (tasks l)"
  shows "list_all2 tracks ts (tasks (start_task ev i l)) \<and>
         extends ts (world l) (world (start_task ev i l))"
  using assms step_inv [OF assms, of ev 0 i]
  by (auto simp: start_task_def extends_refl split: tstate.splits)

lemma sched_step_inv:
  assumes "list_all2 tracks ts (tasks l)"
  shows "list_all2 tracks ts (tasks (sched_step ev l d)) \<and>
         extends ts (world l) (world (sched_step ev l d))"
proof -
  let ?l = "l\<lparr>world := tick (fst d) (world l)\<rparr>"
  from assms have "list_all2 tracks ts (tasks ?l)" by simp
  from step_inv [OF this, of ev "fst (snd d)" "snd (snd d)"] extends_tick [of ts "world l" "fst d"]
  show ?thesis
    by (auto simp: sched_step_def intro: extends_trans)
qed

lemma foldl_inv:
  assumes step: "\<And>l x. list_all2 tracks ts (tasks l) \<Longrightarrow>
      list_all2 tracks ts (tasks (f l x)) \<and> extends ts (world l) (world (f l x))"
  shows "list_all2 tracks ts (tasks l) \<Longrightarrow>
     list_all2 tracks ts (tasks (foldl f l xs)) \<and> extends ts (world l) (world (foldl f l xs))"
proof (induction xs arbitrary: l)
  case Nil
  then show ?case by (simp add: extends_refl)
next
  case (Cons x xs)
  from step [OF Cons.prems, of x] Cons.IH [of "f l x"] show ?case
    by (auto intro: extends_trans)
qed

lemma fst_pair_ex: "\<exists>b. x = (fst x, b)"
  by (cases x) simp

lemma complete_inv:
  assumes "tracks t st" and "t \<in> set ts" and "complete ev st c w = (r, c', w')"
  shows "(\<forall>x. r = Inr x \<longrightarrow> result_for t x) \<and> extends ts w w'"
proof (cases st)
  case (Created t')
  with assms(1) have t: "t' = t" by simp
  show ?thesis
  proof (cases t)
    case (NullSummary f s)
    with Created t assms(3) show ?thesis
      by (auto simp: null_summary_def extends_refl)
  next
    case (FetchSummary f p hc)
    from assms(2) FetchSummary have al: "allowed ts (Post hc f p)" by simp
    from fetch_start_cases_now [of f p hc c w] show ?thesis
    proof
      assume "\<exists>v. fetch_start 0 f p hc c w = (Finished (f, v), w)"
      with Created t FetchSummary assms(3) show ?thesis
        by (auto simp: fetch_summary_def extends_refl)
    next
      assume s: "fetch_start 0 f p hc c w = (Suspended (posts w), log (Post hc f p) w)"
      obtain r1 c1 w1 where fr: "fetch_resume ev f p (post ev (posts w) p) c
            (tick 0 (log (Post hc f p) w)) = (r1, c1, w1)"
        by (metis prod_cases3)
      from fetch_resume_extends [OF fr, of ts] extends_log [OF al, of w]
        extends_tick [of ts "log (Post hc f p) w" 0]
      have e: "extends ts w w1" and "fst r1 = f"
        by (auto intro: extends_trans)
      then obtain b where "r1 = (f, b)" by (cases r1) auto
      with e s fr Created t FetchSummary assms(3) show ?thesis
        by (auto simp: fetch_summary_def)
    qed
  qed
next
  case (Awaiting f p n)
  obtain r1 c1 w1 where fr: "fetch_resume ev f p (post ev n p) c w = (r1, c1, w1)"
    by (metis prod_cases3)
  from fetch_resume_extends [OF fr, of ts] have e: "extends ts w w1" and "fst r1 = f"
    by simp_all
  then obtain b where "r1 = (f, b)" by (cases r1) auto
  with e fr Awaiting assms(1,3) show ?thesis
    by (cases t) auto
next
  case (Done x)
  with assms(1,3) show ?thesis
    by (cases t) (auto simp: extends_refl fst_pair_ex)
next
  case (Failed e)
  with assms(3) show ?thesis by (auto simp: extends_refl)
qed

lemma complete_returns:
  assumes "\<not> has_failed st"
  shows "\<exists>x. fst (complete ev st c w) = Inr x"
proof (cases st)
  case (Created t)
  show ?thesis
  proof (cases t)
    case (NullSummary f s)
    with Created show ?thesis by simp
  next
    case (FetchSummary f p hc)
    from fetch_start_cases_now [of f p hc c w] Created FetchSummary show ?thesis
      by (auto simp: fetch_summary_def split: prod.splits)
  qed
next
  case (Awaiting f p n)
  then show ?thesis by (simp split: prod.splits)
next
  case (Done r)
  then show ?thesis by simp
next
  case (Failed e)
  with assms show ?thesis by simp
qed

lemma collect_inv:
  "list_all2 tracks ts0 sts \<Longrightarrow> set ts0 \<subseteq> set ts \<Longrightarrow> collect ev sts c w = (res, c', w') \<Longrightarrow>
     (\<forall>rs. res = Inr rs \<longrightarrow> list_all2 result_for ts0 rs) \<and> extends ts w w'"
proof (induction sts arbitrary: ts0 c w res c' w')
  case Nil
  then show ?case by (auto simp: extends_refl)
next
  case (Cons st sts)
  from Cons.prems(1) obtain t ts1 where ts0: "ts0 = t # ts1" and tr: "tracks t st"
    and rest: "list_all2 tracks ts1 sts"
    by (auto simp: list_all2_Cons2)
  obtain r c1 w1 where co: "complete ev st c w = (r, c1, w1)"
    by (metis prod_cases3)
  obtain rs c2 w2 where cl: "collect ev sts c1 w1 = (rs, c2, w2)"
    by (metis prod_cases3)
  from Cons.prems(2) ts0 have mem: "t \<in> set ts" and sub: "set ts1 \<subseteq> set ts"
    by simp_all
  from complete_inv [OF tr mem co] have x: "\<forall>x. r = Inr x \<longrightarrow> result_for t x"
    and e1: "extends ts w w1"
    by simp_all
  from Cons.IH [OF rest sub cl] have xs: "\<forall>xs. rs = Inr xs \<longrightarrow> list_all2 result_for ts1 xs"
    and e2: "extends ts w1 w2"
    by simp_all
  from Cons.prems(3) co cl have res: "res = (case r of Inl e \<Rightarrow> Inl e
      | Inr x \<Rightarrow> (case rs of Inl e \<Rightarrow> Inl e | Inr xs \<Rightarrow> Inr (x # xs)))" and w': "w' = w2"
    by simp_all
  from res x xs ts0 have "\<forall>ys. res = Inr ys \<longrightarrow> list_all2 result_for ts0 ys"
    by (auto split: sum.splits)
  with e1 e2 w' show ?case
    by (auto intro: extends_trans)
qed

lemma collect_returns:
  "list_all (\<lambda>st. \<not> has_failed st) sts \<Longrightarrow> \<exists>rs. fst (collect ev sts c w) = Inr rs"
proof (induction sts arbitrary: c w)
  case Nil
  show ?case by simp
next
  case (Cons st sts)
  obtain r c1 w1 where co: "complete ev st c w = (r, c1, w1)"
    by (metis prod_cases3)
  obtain rs c2 w2 where cl: "collect ev sts c1 w1 = (rs, c2, w2)"
    by (metis prod_cases3)
  from Cons.prems complete_returns [of st ev c w] co obtain x where x: "r = Inr x"
    by auto
  from Cons.prems Cons.IH [of c1 w1] cl obtain xs where xs: "rs = Inr xs"
    by auto
  from co cl x xs show ?case by simp
qed

lemma gather_inv:
  assumes "gather ev sched ts c w = (res, w')"
  shows "(\<forall>rs. res = Inr rs \<longrightarrow> list_all2 result_for ts rs) \<and> extends ts w w'"
proof -
  let ?l0 = "\<lparr>tasks = map Created ts, cache = c, world = w\<rparr>"
  let ?l1 = "foldl (sched_step ev) ?l0 sched"
  let ?l2 = "foldl (\<lambda>l i. start_task ev i l) ?l1 [0..<length ts]"
  have i0: "list_all2 tracks ts (tasks ?l0)"
    by (simp add: list_all2_conv_all_nth)
  from foldl_inv [of ts "sched_step ev", OF sched_step_inv i0, of sched]
  have i1: "list_all2 tracks ts (tasks ?l1)" and e1: "extends ts w (world ?l1)"
    by simp_all
  from foldl_inv [of ts "\<lambda>l i. start_task ev i l", OF start_task_inv i1, of "[0..<length ts]"]
  have i2: "list_all2 tracks ts (tasks ?l2)" and e2: "extends ts (world ?l1) (world ?l2)"
    by simp_all
  obtain rs c3 w3 where cl: "collect ev (tasks ?l2) (cache ?l2) (world ?l2) = (rs, c3, w3)"
    by (metis prod_cases3)
  from collect_inv [OF i2 subset_refl cl] e1 e2
  have "(\<forall>xs. rs = Inr xs \<longrightarrow> list_all2 result_for ts xs) \<and> extends ts w w3"
    by (auto intro: extends_trans)
  moreover from assms cl have "res = rs" and "w' = w3"
    by (simp_all add: gather_def Let_def)
  ultimately show ?thesis by simp
qed

text \<open>
  With no time between the two cache operations of a step, no task fails, and
  \<open>asyncio.gather\<close> returns.
\<close>

lemma step_no_failure:
  assumes "list_all (\<lambda>st. \<not> has_failed st) (tasks l)"
  shows "list_all (\<lambda>st. \<not> has_failed st) (tasks (step ev 0 i l))"
proof -
  have upd: "\<not> has_failed st \<Longrightarrow> list_all (\<lambda>st. \<not> has_failed st) ((tasks l)[i := st])" for st
    using assms by (auto simp: list_all_iff dest!: set_update_subset_insert [THEN subsetD])
  show ?thesis
  proof (cases "i < length (tasks l)")
    case False
    with assms show ?thesis by (simp add: step_def)
  next
    case True
    show ?thesis
    proof (cases "tasks l ! i")
      case (Created t)
      show ?thesis
      proof (cases t)
        case (NullSummary f s)
        with Created True upd [of "Done (f, s)"] show ?thesis
          by (simp add: step_def null_summary_def)
      next
        case (FetchSummary f p hc)
        from fetch_start_cases_now [of f p hc "cache l" "world l"] Created True FetchSummary
          upd [of "Done (f, v)" for v] upd [of "Awaiting f p (posts (world l))"]
        show ?thesis
          by (auto simp: step_def)
      qed
    next
      case (Awaiting f p n)
      with True upd [of "Done r" for r] show ?thesis
        by (simp add: step_def split: prod.splits)
    next
      case (Done r)
      with assms True show ?thesis by (simp add: step_def)
    next
      case (Failed e)
      with assms True show ?thesis by (simp add: step_def)
    qed
  qed
qed

lemma start_task_no_failure:
  assumes "list_all (\<lambda>st. \<not> has_failed st) (tasks l)"
  shows "list_all (\<lambda>st. \<not> has_failed st) (tasks (start_task ev i l))"
  using assms step_no_failure [OF assms, of ev i]
  by (auto simp: start_task_def split: tstate.splits)

lemma foldl_start_no_failure:
  "list_all (\<lambda>st. \<not> has_failed st) (tasks l) \<Longrightarrow>
     list_all (\<lambda>st. \<not> has_failed st) (tasks (foldl (\<lambda>l i. start_task ev i l) l is))"
  by (induction "is" arbitrary: l) (simp_all add: start_task_no_failure)

lemma foldl_sched_no_failure:
  "no_gaps sched \<Longrightarrow> list_all (\<lambda>st. \<not> has_failed st) (tasks l) \<Longrightarrow>
     list_all (\<lambda>st. \<not> has_failed st) (tasks (foldl (sched_step ev) l sched))"
proof (induction sched arbitrary: l)
  case Nil
  then show ?case by simp
next
  case (Cons d sched)
  from Cons.prems(1) have g: "fst (snd d) = 0" and rest: "no_gaps sched"
    by (simp_all add: no_gaps_def)
  let ?l = "l\<lparr>world := tick (fst d) (world l)\<rparr>"
  from Cons.prems(2) have "list_all (\<lambda>st. \<not> has_failed st) (tasks ?l)" by simp
  from step_no_failure [OF this, of ev "snd (snd d)"] g
  have "list_all (\<lambda>st. \<not> has_failed st) (tasks (sched_step ev l d))"
    by (simp add: sched_step_def)
  from Cons.IH [OF rest this] show ?case by simp
qed

lemma gather_returns:
  assumes "no_gaps sched"
  shows "\<exists>rs. fst (gather ev sched ts c w) = Inr rs"
proof -
  let ?l0 = "\<lparr>tasks = map Created ts, cache = c, world = w\<rparr>"
  let ?l1 = "foldl (sched_step ev) ?l0 sched"
  let ?l2 = "foldl (\<lambda>l i. start_task ev i l) ?l1 [0..<length ts]"
  have "list_all (\<lambda>st. \<not> has_failed st) (tasks ?l0)"
    by (simp add: list_all_iff)
  from foldl_sched_no_failure [OF assms this]
  have "list_all (\<lambda>st. \<not> has_failed st) (tasks ?l1)" .
  from foldl_start_no_failure [OF this]
  have "list_all (\<lambda>st. \<not> has_failed st) (tasks ?l2)" .
  from collect_returns [OF this, of ev "cache ?l2" "world ?l2"] show ?thesis
    by (auto simp: gather_def Let_def split: prod.splits)
qed

section \<open>Properties of the loop over the files\<close>

lemma build_tasks_Cons:
  "build_tasks ev ig ((path, contents) # rest) prompt hc =
     (if ignored ig path then build_tasks ev ig rest prompt hc
      else case render ev prompt contents of
             Inl e \<Rightarrow> Inl e
           | Inr pc \<Rightarrow> (case build_tasks ev ig rest prompt hc of
                          Inl e \<Rightarrow> Inl e
                        | Inr ts \<Rightarrow> Inr (task_of path pc hc # ts)))"
  by (simp add: task_of_def Let_def split: sum.splits)

lemma task_file_task_of: "task_file (task_of path pc hc) = path"
  by (simp add: task_of_def)

declare build_tasks.simps(2) [simp del]

lemma renders_Cons:
  "renders ev ig ((path, contents) # files) prompt =
     ((ignored ig path \<or> \<not> isl (render ev prompt contents)) \<and> renders ev ig files prompt)"
  by (simp add: renders_def)

lemma build_tasks_returns:
  "(\<exists>ts. build_tasks ev ig files prompt hc = Inr ts) = renders ev ig files prompt"
proof (induction files)
  case Nil
  show ?case by (simp add: renders_def)
next
  case (Cons a files)
  obtain path contents where a: "a = (path, contents)" by (cases a)
  show ?case
  proof (cases "ignored ig path")
    case True
    with Cons.IH show ?thesis
      by (simp add: a build_tasks_Cons renders_Cons)
  next
    case False
    show ?thesis
    proof (cases "render ev prompt contents")
      case (Inl e)
      with False show ?thesis
        by (simp add: a build_tasks_Cons renders_Cons)
    next
      case (Inr pc)
      show ?thesis
      proof (cases "build_tasks ev ig files prompt hc")
        case (Inl e)
        with Cons.IH False Inr show ?thesis
          by (simp add: a build_tasks_Cons renders_Cons)
      next
        case r: (Inr ts)
        with Cons.IH False Inr show ?thesis
          by (simp add: a build_tasks_Cons renders_Cons)
      qed
    qed
  qed
qed

lemma build_tasks_Cons_Inr:
  assumes "build_tasks ev ig ((path, contents) # rest) prompt hc = Inr ts"
  shows "(ignored ig path \<and> build_tasks ev ig rest prompt hc = Inr ts) \<or>
         (\<not> ignored ig path \<and>
          (\<exists>pc ts'. render ev prompt contents = Inr pc \<and>
             build_tasks ev ig rest prompt hc = Inr ts' \<and> ts = task_of path pc hc # ts'))"
proof (cases "ignored ig path")
  case True
  with assms show ?thesis by (simp add: build_tasks_Cons)
next
  case False
  with assms show ?thesis
    by (cases "render ev prompt contents"; cases "build_tasks ev ig rest prompt hc")
       (simp_all add: build_tasks_Cons)
qed

lemma build_tasks_files:
  "build_tasks ev ig files prompt hc = Inr ts \<Longrightarrow>
     map task_file ts = filter (\<lambda>p. \<not> ignored ig p) (map fst files)"
proof (induction files arbitrary: ts)
  case Nil
  then show ?case by simp
next
  case (Cons a files)
  obtain path contents where a: "a = (path, contents)" by (cases a)
  from Cons.prems a have b: "build_tasks ev ig ((path, contents) # files) prompt hc = Inr ts"
    by simp
  from build_tasks_Cons_Inr [OF b] show ?case
  proof (elim disjE conjE exE)
    assume "ignored ig path" "build_tasks ev ig files prompt hc = Inr ts"
    with Cons.IH [of ts] a show ?thesis by simp
  next
    fix pc ts'
    assume "\<not> ignored ig path" "build_tasks ev ig files prompt hc = Inr ts'"
      "ts = task_of path pc hc # ts'"
    with Cons.IH [of ts'] a show ?thesis by (simp add: task_file_task_of)
  qed
qed

lemma build_tasks_mem:
  "build_tasks ev ig files prompt hc = Inr ts \<Longrightarrow> t \<in> set ts \<Longrightarrow>
     \<exists>path contents pc. (path, contents) \<in> set files \<and> \<not> ignored ig path \<and>
        render ev prompt contents = Inr pc \<and> t = task_of path pc hc"
proof (induction files arbitrary: ts)
  case Nil
  then show ?case by simp
next
  case (Cons a files)
  obtain path contents where a: "a = (path, contents)" by (cases a)
  from Cons.prems a have b: "build_tasks ev ig ((path, contents) # files) prompt hc = Inr ts"
    by simp
  from build_tasks_Cons_Inr [OF b] show ?case
  proof (elim disjE conjE exE)
    assume "ignored ig path" "build_tasks ev ig files prompt hc = Inr ts"
    from Cons.IH [OF this(2) Cons.prems(2)] show ?thesis by auto
  next
    fix pc ts'
    assume n: "\<not> ignored ig path" and r: "render ev prompt contents = Inr pc"
      and bt: "build_tasks ev ig files prompt hc = Inr ts'" and ts: "ts = task_of path pc hc # ts'"
    show ?thesis
    proof (cases "t = task_of path pc hc")
      case True
      with n r a show ?thesis by auto
    next
      case False
      with Cons.prems(2) ts have "t \<in> set ts'" by simp
      from Cons.IH [OF bt this] show ?thesis by auto
    qed
  qed
qed

lemma build_tasks_has:
  "build_tasks ev ig files prompt hc = Inr ts \<Longrightarrow> (path, contents) \<in> set files \<Longrightarrow>
     \<not> ignored ig path \<Longrightarrow>
     \<exists>pc. render ev prompt contents = Inr pc \<and> task_of path pc hc \<in> set ts"
proof (induction files arbitrary: ts)
  case Nil
  then show ?case by simp
next
  case (Cons a files)
  obtain path' contents' where a: "a = (path', contents')" by (cases a)
  from Cons.prems a have b: "build_tasks ev ig ((path', contents') # files) prompt hc = Inr ts"
    by simp
  from build_tasks_Cons_Inr [OF b] show ?case
  proof (elim disjE conjE exE)
    assume i: "ignored ig path'" and bt: "build_tasks ev ig files prompt hc = Inr ts"
    with Cons.prems(2,3) a have "(path, contents) \<in> set files" by auto
    from Cons.IH [OF bt this Cons.prems(3)] show ?thesis .
  next
    fix pc ts'
    assume n: "\<not> ignored ig path'" and r: "render ev prompt contents' = Inr pc"
      and bt: "build_tasks ev ig files prompt hc = Inr ts'" and ts: "ts = task_of path' pc hc # ts'"
    show ?thesis
    proof (cases "(path, contents) = (path', contents')")
      case True
      with r ts show ?thesis by auto
    next
      case False
      with Cons.prems(2) a have "(path, contents) \<in> set files" by auto
      from Cons.IH [OF bt this Cons.prems(3)] ts show ?thesis by auto
    qed
  qed
qed

lemma code_to_text_unfold:
  "code_to_text ev sched ig files prompt w =
     (case build_tasks ev ig files prompt (next_client w) of
        Inl e \<Rightarrow> (Inl e, snd (get_http_client w))
      | Inr ts \<Rightarrow> gather ev sched ts get_cache (snd (get_http_client w)))"
  by (simp add: code_to_text_def get_http_client_def split: sum.splits)

lemma list_all2_result_files:
  "list_all2 result_for ts rs \<Longrightarrow> map fst rs = map task_file ts"
proof (induction rule: list_all2_induct)
  case Nil
  show ?case by simp
next
  case (Cons t ts r rs)
  then show ?case by (cases t) auto
qed

lemma code_to_text_result:
  assumes "build_tasks ev ig files prompt (next_client w) = Inr ts"
    and "code_to_text ev sched ig files prompt w = (Inr rs, w')"
  shows "list_all2 result_for ts rs \<and> extends ts (snd (get_http_client w)) w'"
proof -
  from assms have "gather ev sched ts get_cache (snd (get_http_client w)) = (Inr rs, w')"
    by (simp add: code_to_text_unfold)
  from gather_inv [OF this] show ?thesis by simp
qed

lemma code_to_text_returns:
  assumes "build_tasks ev ig files prompt (next_client w) = Inr ts" and "no_gaps sched"
  shows "\<exists>rs w'. code_to_text ev sched ig files prompt w = (Inr rs, w')"
proof -
  from gather_returns [OF assms(2), of ev ts get_cache "snd (get_http_client w)"]
  obtain rs where "fst (gather ev sched ts get_cache (snd (get_http_client w))) = Inr rs" ..
  with assms(1) show ?thesis
    by (cases "gather ev sched ts get_cache (snd (get_http_client w))")
       (auto simp: code_to_text_unfold)
qed

lemmas run_defs = code_to_text_def get_http_client_def gather_def start_task_def step_def
  sched_step_def null_summary_def build_tasks_Cons task_of_def ignored_def str_format_def
  format_field_def split_ws_def MAX_TOKENS_def eval_defs

text \<open>
  Claim C1. For every mapping of paths to contents and every ignore list, the paths of the
  result of the pipeline are the paths of the input files that contain no entry of the
  ignore list as a substring, one entry for each and in the order of the input, and none
  for an ignored file. So the result has as many entries as there are input files minus
  the ignored ones, and its paths are distinct as the keys of the input are. There is a
  result only if the template substitution succeeds on every file that is not ignored,
  and there is one whenever it does and no time passes between the two cache operations
  of a step.
\<close>

theorem code_to_text_entries:
  "((\<exists>rs w'. code_to_text ev sched ignore_files files prompt w = (Inr rs, w'))
      \<longrightarrow> renders ev ignore_files files prompt) \<and>
   (renders ev ignore_files files prompt \<and> no_gaps sched
      \<longrightarrow> (\<exists>rs w'. code_to_text ev sched ignore_files files prompt w = (Inr rs, w'))) \<and>
   (code_to_text ev sched ignore_files files prompt w = (Inr rs, w') \<longrightarrow>
      map fst rs = filter (\<lambda>path. \<not> ignored ignore_files path) (map fst files) \<and>
      length rs = length files - length (filter (ignored ignore_files) (map fst files)) \<and>
      (distinct (map fst files) \<longrightarrow> distinct (map fst rs)))"
proof (intro conjI impI)
  assume "\<exists>rs w'. code_to_text ev sched ignore_files files prompt w = (Inr rs, w')"
  then have "\<exists>ts. build_tasks ev ignore_files files prompt (next_client w) = Inr ts"
    by (cases "build_tasks ev ignore_files files prompt (next_client w)")
       (auto simp: code_to_text_unfold)
  with build_tasks_returns [of ev ignore_files files prompt "next_client w"]
  show "renders ev ignore_files files prompt" by simp
next
  assume "renders ev ignore_files files prompt \<and> no_gaps sched"
  with build_tasks_returns [of ev ignore_files files prompt "next_client w"]
  obtain ts where "build_tasks ev ignore_files files prompt (next_client w) = Inr ts"
    and "no_gaps sched"
    by blast
  then show "\<exists>rs w'. code_to_text ev sched ignore_files files prompt w = (Inr rs, w')"
    by (rule code_to_text_returns)
next
  assume run: "code_to_text ev sched ignore_files files prompt w = (Inr rs, w')"
  then obtain ts where ts: "build_tasks ev ignore_files files prompt (next_client w) = Inr ts"
    by (cases "build_tasks ev ignore_files files prompt (next_client w)")
       (auto simp: code_to_text_unfold)
  from code_to_text_result [OF ts run] have "list_all2 result_for ts rs"
    by simp
  with build_tasks_files [OF ts]
  show paths: "map fst rs = filter (\<lambda>path. \<not> ignored ignore_files path) (map fst files)"
    by (simp add: list_all2_result_files)
  have "length (filter (\<lambda>path. \<not> ignored ignore_files path) (map fst files))
      = length (map fst files) - length (filter (ignored ignore_files) (map fst files))"
    using sum_length_filter_compl [of "ignored ignore_files" "map fst files"] by simp
  with paths show "length rs = length files - length (filter (ignored ignore_files) (map fst files))"
    by (metis length_map)
  show "distinct (map fst rs)" if "distinct (map fst files)"
    using that paths by simp
qed

theorem code_to_text_entries_witness:
  "code_to_text (const_env (Inr (reply 200 (completion ''ok'')))) [] [''.git'']
       [(''a.py'', ''x = 1''), (''.git/config'', ''y'')] ''Summarize: {}'' world0
     = (Inr [(''a.py'', ''ok'')],
        \<lparr>now = 0,
           trace = [ClientCreated 0, Post 0 ''a.py'' ''Summarize: x = 1'', JsonParsed ''a.py'',
                    CacheWrite ''Summarize: x = 1'' ''ok''],
           next_client = 1, open_clients = [0]\<rparr>) \<and>
   renders (const_env (Inr (reply 200 (completion ''ok'')))) [''.git'']
       [(''a.py'', ''x = 1''), (''.git/config'', ''y'')] ''Summarize: {}'' \<and>
   map fst [(''a.py'', ''ok'')]
     = filter (\<lambda>path. \<not> ignored [''.git''] path) (map fst [(''a.py'', ''x = 1''), (''.git/config'', ''y'')]) \<and>
   distinct (map fst [(''a.py'', ''x = 1''), (''.git/config'', ''y'')])"
proof -
  let ?ev = "const_env (Inr (reply 200 (completion ''ok'')))"
  let ?files = "[(''a.py'', ''x = 1''), (''.git/config'', ''y'')]"
  let ?w = "\<lparr>now = 0,
           trace = [ClientCreated 0, Post 0 ''a.py'' ''Summarize: x = 1'', JsonParsed ''a.py'',
                    CacheWrite ''Summarize: x = 1'' ''ok''],
           next_client = 1, open_clients = [0]\<rparr>"
  have run: "code_to_text ?ev [] [''.git''] ?files ''Summarize: {}'' world0
      = (Inr [(''a.py'', ''ok'')], ?w)"
    by (simp add: run_defs)
  have d: "distinct (map fst ?files)" by simp
  from code_to_text_entries [of ?ev "[]" "[''.git'']" ?files "''Summarize: {}''" world0
      "[(''a.py'', ''ok'')]" ?w] run d
  show ?thesis by blast
qed


section \<open>The token budget\<close>

lemma tokens_words: "length (split_ws (words n)) = n"
  by (induction n) (simp_all add: split_ws_def words_def is_space_def)

lemma str_format_slot: "str_format ''{}'' c = Inr c"
  by (simp add: str_format_def format_field_def)

lemma task_file_inj:
  assumes "distinct (map task_file ts)" and "t \<in> set ts" and "t' \<in> set ts"
    and "task_file t = task_file t'"
  shows "t = t'"
  using assms by (meson distinct_map inj_onD)

lemma build_tasks_distinct:
  "build_tasks ev ig files prompt hc = Inr ts \<Longrightarrow> distinct (map fst files) \<Longrightarrow>
     distinct (map task_file ts)"
  by (simp add: build_tasks_files)

lemma result_for_mem:
  "list_all2 result_for ts rs \<Longrightarrow> t \<in> set ts \<Longrightarrow> \<exists>r\<in>set rs. result_for t r"
  by (induction rule: list_all2_induct) auto

lemma result_for_mem_rev:
  "list_all2 result_for ts rs \<Longrightarrow> r \<in> set rs \<Longrightarrow> \<exists>t\<in>set ts. result_for t r"
  by (induction rule: list_all2_induct) auto

lemma result_for_file: "result_for t r \<Longrightarrow> fst r = task_file t"
  by (cases t) auto

lemma filter_append_none:
  "\<forall>e\<in>set evs. \<not> P e \<Longrightarrow> filter P (xs @ evs) = filter P xs"
  by (induction evs) auto

lemma extends_no_post:
  assumes "extends ts w w'" and "\<forall>p hc. FetchSummary path p hc \<notin> set ts"
  shows "filter (post_for path) (trace w') = filter (post_for path) (trace w)"
proof -
  from assms(1) obtain evs where tr: "trace w' = trace w @ evs" and al: "list_all (allowed ts) evs"
    by (auto simp: extends_def)
  have "\<not> post_for path e" if "e \<in> set evs" for e
  proof (cases e)
    case (Post hc f p)
    with al that have "FetchSummary f p hc \<in> set ts"
      by (auto simp: list_all_iff)
    with assms(2) Post show ?thesis by auto
  qed auto
  with tr show ?thesis
    by (simp add: filter_append_none)
qed

lemma get_http_client_posts:
  "filter (post_for path) (trace (snd (get_http_client w))) = filter (post_for path) (trace w)"
  by (simp add: get_http_client_def log_def)

text \<open>
  Claim C3. When the pipeline returns and the rendered prompt of a file that is not
  ignored has more than 4096 whitespace-delimited tokens, the result pairs the path of
  that file with the text "Prompt exceeds max token limit: " followed by the token count,
  and with no other text, and the requests sent for that path are those sent before the
  pipeline ran: the pipeline sends none.
\<close>

theorem code_to_text_over_budget:
  "code_to_text ev sched ignore_files files prompt w = (Inr rs, w') \<and>
   distinct (map fst files) \<and> (path, contents) \<in> set files \<and> \<not> ignored ignore_files path \<and>
   render ev prompt contents = Inr prompt_code \<and> 4096 < length (split_ws prompt_code) \<longrightarrow>
     (path, ''Prompt exceeds max token limit: '' @ str_nat (length (split_ws prompt_code))) \<in> set rs \<and>
     (\<forall>text. (path, text) \<in> set rs \<longrightarrow>
        text = ''Prompt exceeds max token limit: '' @ str_nat (length (split_ws prompt_code))) \<and>
     filter (post_for path) (trace w') = filter (post_for path) (trace w)"
proof (intro impI)
  let ?msg = "''Prompt exceeds max token limit: '' @ str_nat (length (split_ws prompt_code))"
  let ?t = "NullSummary path ?msg"
  assume a: "code_to_text ev sched ignore_files files prompt w = (Inr rs, w') \<and>
   distinct (map fst files) \<and> (path, contents) \<in> set files \<and> \<not> ignored ignore_files path \<and>
   render ev prompt contents = Inr prompt_code \<and> 4096 < length (split_ws prompt_code)"
  then have run: "code_to_text ev sched ignore_files files prompt w = (Inr rs, w')"
    and dist: "distinct (map fst files)" and mem: "(path, contents) \<in> set files"
    and ni: "\<not> ignored ignore_files path" and rend: "render ev prompt contents = Inr prompt_code"
    and big: "4096 < length (split_ws prompt_code)"
    by simp_all
  from run obtain ts where ts: "build_tasks ev ignore_files files prompt (next_client w) = Inr ts"
    by (cases "build_tasks ev ignore_files files prompt (next_client w)")
       (auto simp: code_to_text_unfold)
  from code_to_text_result [OF ts run]
  have res: "list_all2 result_for ts rs" and ext: "extends ts (snd (get_http_client w)) w'"
    by simp_all
  from build_tasks_has [OF ts mem ni] rend big have t: "?t \<in> set ts"
    by (simp add: task_of_def MAX_TOKENS_def err_format_def)
  note d = build_tasks_distinct [OF ts dist]
  from result_for_mem [OF res t] have c1: "(path, ?msg) \<in> set rs"
    by auto
  have c2: "\<forall>text. (path, text) \<in> set rs \<longrightarrow> text = ?msg"
  proof (intro allI impI)
    fix body
    assume "(path, body) \<in> set rs"
    from result_for_mem_rev [OF res this] obtain t' where t': "t' \<in> set ts"
      and r: "result_for t' (path, body)"
      by blast
    from result_for_file [OF r] have "task_file t' = task_file ?t" by simp
    from task_file_inj [OF d t' t this] r show "body = ?msg" by simp
  qed
  have "FetchSummary path p hc \<notin> set ts" for p hc
  proof
    assume f: "FetchSummary path p hc \<in> set ts"
    have "task_file (FetchSummary path p hc) = task_file ?t" by simp
    from task_file_inj [OF d f t this] show False by simp
  qed
  then have "\<forall>p hc. FetchSummary path p hc \<notin> set ts" by blast
  from extends_no_post [OF ext this] get_http_client_posts [of path w]
  have c3: "filter (post_for path) (trace w') = filter (post_for path) (trace w)"
    by simp
  from c1 c2 c3 show "(path, ?msg) \<in> set rs \<and>
     (\<forall>text. (path, text) \<in> set rs \<longrightarrow> text = ?msg) \<and>
     filter (post_for path) (trace w') = filter (post_for path) (trace w)"
    by (intro conjI)
qed

lemma str_nat_4097: "str_nat 4097 = ''4097''"
  by (simp add: str_nat.simps digit_char_def)

lemma build_tasks_words_4097:
  "build_tasks (const_env out) [] [(''big.py'', words 4097)] ''{}'' 0
     = Inr [NullSummary ''big.py'' ''Prompt exceeds max token limit: 4097'']"
  by (simp add: build_tasks_Cons const_env_def str_format_slot tokens_words task_of_def
      MAX_TOKENS_def err_format_def str_nat_4097 ignored_def)

theorem code_to_text_over_budget_witness:
  "(code_to_text (const_env (Inl (TransportError ''unreachable''))) [] [] [(''big.py'', words 4097)]
       ''{}'' world0
     = (Inr [(''big.py'', ''Prompt exceeds max token limit: 4097'')],
        \<lparr>now = 0, trace = [ClientCreated 0], next_client = 1, open_clients = [0]\<rparr>) \<and>
   distinct (map fst [(''big.py'', words 4097)]) \<and>
   (''big.py'', words 4097) \<in> set [(''big.py'', words 4097)] \<and> \<not> ignored [] ''big.py'' \<and>
   render (const_env (Inl (TransportError ''unreachable''))) ''{}'' (words 4097) = Inr (words 4097) \<and>
   4096 < length (split_ws (words 4097))) \<and>
   ((''big.py'', ''Prompt exceeds max token limit: '' @ str_nat (length (split_ws (words 4097))))
     \<in> set [(''big.py'', ''Prompt exceeds max token limit: 4097'')] \<and>
   filter (post_for ''big.py'')
       (trace \<lparr>now = 0, trace = [ClientCreated 0], next_client = 1, open_clients = [0]\<rparr>)
     = filter (post_for ''big.py'') (trace world0))"
proof -
  let ?ev = "const_env (Inl (TransportError ''unreachable''))"
  let ?w = "\<lparr>now = 0, trace = [ClientCreated 0], next_client = 1, open_clients = [0]\<rparr>"
  have rend: "render ?ev ''{}'' (words 4097) = Inr (words 4097)"
    by (simp add: const_env_def str_format_slot)
  have big: "4096 < length (split_ws (words 4097))"
    by (simp add: tokens_words)
  have run: "code_to_text ?ev [] [] [(''big.py'', words 4097)] ''{}'' world0
      = (Inr [(''big.py'', ''Prompt exceeds max token limit: 4097'')], ?w)"
    by (simp add: code_to_text_unfold world0_def build_tasks_words_4097 get_http_client_def
        gather_def start_task_def step_def null_summary_def log_def)
  have ni: "\<not> ignored [] ''big.py''" by (simp add: ignored_def)
  have dist: "distinct (map fst [(''big.py'', words 4097)])" by simp
  have mem: "(''big.py'', words 4097) \<in> set [(''big.py'', words 4097)]" by simp
  have h: "code_to_text ?ev [] [] [(''big.py'', words 4097)] ''{}'' world0
      = (Inr [(''big.py'', ''Prompt exceeds max token limit: 4097'')], ?w) \<and>
    distinct (map fst [(''big.py'', words 4097)]) \<and>
    (''big.py'', words 4097) \<in> set [(''big.py'', words 4097)] \<and> \<not> ignored [] ''big.py'' \<and>
    render ?ev ''{}'' (words 4097) = Inr (words 4097) \<and>
    4096 < length (split_ws (words 4097))"
    by (intro conjI run dist mem ni rend big)
  from code_to_text_over_budget [of ?ev "[]" "[]" "[(''big.py'', words 4097)]" "''{}''" world0
      "[(''big.py'', ''Prompt exceeds max token limit: 4097'')]" ?w "''big.py''" "words 4097"
      "words 4097"] h
  show ?thesis by blast
qed

text \<open>
  Claim C10. The comparison with the budget is strict: for a file that is not ignored and
  whose rendered prompt has exactly 4096 tokens, the loop of \<open>code_to_text\<close> creates the
  fetch task for that path and prompt, and no placeholder task for that path.
\<close>

theorem build_tasks_at_budget:
  "build_tasks ev ignore_files files prompt http_client = Inr ts \<and>
   distinct (map fst files) \<and> (path, contents) \<in> set files \<and> \<not> ignored ignore_files path \<and>
   render ev prompt contents = Inr prompt_code \<and> length (split_ws prompt_code) = 4096 \<longrightarrow>
     FetchSummary path prompt_code http_client \<in> set ts \<and>
     (\<forall>summary. NullSummary path summary \<notin> set ts)"
proof (intro impI)
  let ?t = "FetchSummary path prompt_code http_client"
  assume a: "build_tasks ev ignore_files files prompt http_client = Inr ts \<and>
   distinct (map fst files) \<and> (path, contents) \<in> set files \<and> \<not> ignored ignore_files path \<and>
   render ev prompt contents = Inr prompt_code \<and> length (split_ws prompt_code) = 4096"
  then have ts: "build_tasks ev ignore_files files prompt http_client = Inr ts"
    and dist: "distinct (map fst files)" and mem: "(path, contents) \<in> set files"
    and ni: "\<not> ignored ignore_files path" and rend: "render ev prompt contents = Inr prompt_code"
    and len: "length (split_ws prompt_code) = 4096"
    by simp_all
  from build_tasks_has [OF ts mem ni] rend len have t: "?t \<in> set ts"
    by (simp add: task_of_def MAX_TOKENS_def)
  note d = build_tasks_distinct [OF ts dist]
  have "NullSummary path summary \<notin> set ts" for summary
  proof
    assume n: "NullSummary path summary \<in> set ts"
    have "task_file (NullSummary path summary) = task_file ?t" by simp
    from task_file_inj [OF d n t this] show False by simp
  qed
  with t show "?t \<in> set ts \<and> (\<forall>summary. NullSummary path summary \<notin> set ts)"
    by blast
qed

theorem build_tasks_at_budget_witness:
  "(build_tasks (const_env (Inl (TransportError ''unreachable''))) [] [(''big.py'', words 4096)] ''{}'' 0
     = Inr [FetchSummary ''big.py'' (words 4096) 0] \<and>
   distinct (map fst [(''big.py'', words 4096)]) \<and>
   (''big.py'', words 4096) \<in> set [(''big.py'', words 4096)] \<and> \<not> ignored [] ''big.py'' \<and>
   render (const_env (Inl (TransportError ''unreachable''))) ''{}'' (words 4096) = Inr (words 4096) \<and>
   length (split_ws (words 4096)) = 4096) \<and>
   (FetchSummary ''big.py'' (words 4096) 0 \<in> set [FetchSummary ''big.py'' (words 4096) 0] \<and>
   (\<forall>summary. NullSummary ''big.py'' summary \<notin> set [FetchSummary ''big.py'' (words 4096) 0]))"
proof -
  let ?ev = "const_env (Inl (TransportError ''unreachable''))"
  have rend: "render ?ev ''{}'' (words 4096) = Inr (words 4096)"
    by (simp add: const_env_def str_format_slot)
  have len: "length (split_ws (words 4096)) = 4096"
    by (rule tokens_words)
  have bt: "build_tasks ?ev [] [(''big.py'', words 4096)] ''{}'' 0
      = Inr [FetchSummary ''big.py'' (words 4096) 0]"
    by (simp add: build_tasks_Cons rend len task_of_def MAX_TOKENS_def ignored_def)
  have ni: "\<not> ignored [] ''big.py''" by (simp add: ignored_def)
  have dist: "distinct (map fst [(''big.py'', words 4096)])" by simp
  have mem: "(''big.py'', words 4096) \<in> set [(''big.py'', words 4096)]" by simp
  have h: "build_tasks ?ev [] [(''big.py'', words 4096)] ''{}'' 0
      = Inr [FetchSummary ''big.py'' (words 4096) 0] \<and>
    distinct (map fst [(''big.py'', words 4096)]) \<and>
    (''big.py'', words 4096) \<in> set [(''big.py'', words 4096)] \<and> \<not> ignored [] ''big.py'' \<and>
    render ?ev ''{}'' (words 4096) = Inr (words 4096) \<and>
    length (split_ws (words 4096)) = 4096"
    by (intro conjI bt dist mem ni rend len)
  from build_tasks_at_budget [of ?ev "[]" "[(''big.py'', words 4096)]" "''{}''" 0
      "[FetchSummary ''big.py'' (words 4096) 0]" "''big.py''" "words 4096" "words 4096"] h
  show ?thesis by blast
qed


section \<open>The HTTP client\<close>

lemma build_tasks_client:
  assumes "build_tasks ev ig files prompt c = Inr ts" and "FetchSummary f p hc \<in> set ts"
  shows "hc = c"
proof -
  from build_tasks_mem [OF assms] obtain path pc where "FetchSummary f p hc = task_of path pc c"
    by blast
  then show ?thesis
    by (simp add: task_of_def split: if_splits)
qed

lemma allowed_uses_client:
  assumes "build_tasks ev ig files prompt c = Inr ts" and "allowed ts e"
  shows "uses_client c e"
proof (cases e)
  case (Post hc f p)
  with assms(2) have "FetchSummary f p hc \<in> set ts" by simp
  from build_tasks_client [OF assms(1) this] Post show ?thesis by simp
qed (use assms(2) in simp_all)

text \<open>
  Claim C8, amended. Every invocation of the pipeline creates exactly one HTTP client, and
  every request of the invocation is sent through it. The pipeline never closes it: when
  the invocation returns or raises, the client is still among the open clients.
\<close>

theorem code_to_text_one_client:
  "next_client (snd (code_to_text ev sched ignore_files files prompt w)) = Suc (next_client w) \<and>
   open_clients (snd (code_to_text ev sched ignore_files files prompt w))
     = next_client w # open_clients w \<and>
   (\<exists>evs. trace (snd (code_to_text ev sched ignore_files files prompt w))
            = trace w @ ClientCreated (next_client w) # evs \<and>
          list_all (uses_client (next_client w)) evs)"
proof (cases "build_tasks ev ignore_files files prompt (next_client w)")
  case (Inl e)
  then show ?thesis
    by (simp add: code_to_text_unfold get_http_client_def log_def)
next
  case (Inr ts)
  let ?w1 = "snd (get_http_client w)"
  obtain res w' where g: "gather ev sched ts get_cache ?w1 = (res, w')"
    by (cases "gather ev sched ts get_cache ?w1")
  from gather_inv [OF g] have "extends ts ?w1 w'" by simp
  then obtain evs where nc: "next_client w' = next_client ?w1"
    and oc: "open_clients w' = open_clients ?w1"
    and tr: "trace w' = trace ?w1 @ evs" and al: "list_all (allowed ts) evs"
    by (auto simp: extends_def)
  from al allowed_uses_client [OF Inr] have "list_all (uses_client (next_client w)) evs"
    by (auto simp: list_all_iff)
  with Inr g nc oc tr show ?thesis
    by (simp add: code_to_text_unfold get_http_client_def log_def)
qed

lemma run_ok:
  "code_to_text (const_env (Inr (reply 200 (completion ''ok'')))) [] [] [(''a.py'', ''x'')] ''{}'' world0
     = (Inr [(''a.py'', ''ok'')],
        \<lparr>now = 0, trace = [ClientCreated 0, Post 0 ''a.py'' ''x'', JsonParsed ''a.py'',
             CacheWrite ''x'' ''ok''], next_client = 1, open_clients = [0]\<rparr>)"
  by (simp add: run_defs)

lemma run_bad_template:
  "code_to_text (const_env (Inr (reply 200 (completion ''ok'')))) [] [] [(''a.py'', ''x'')] ''{'' world0
     = (Inl ValueError,
        \<lparr>now = 0, trace = [ClientCreated 0], next_client = 1, open_clients = [0]\<rparr>)"
  by (simp add: run_defs)

theorem code_to_text_one_client_witness:
  "(next_client (snd (code_to_text (const_env (Inr (reply 200 (completion ''ok'')))) [] []
       [(''a.py'', ''x'')] ''{}'' world0)) = Suc (next_client world0) \<and>
    open_clients (snd (code_to_text (const_env (Inr (reply 200 (completion ''ok'')))) [] []
       [(''a.py'', ''x'')] ''{}'' world0)) = next_client world0 # open_clients world0 \<and>
    (\<exists>evs. trace (snd (code_to_text (const_env (Inr (reply 200 (completion ''ok'')))) [] []
               [(''a.py'', ''x'')] ''{}'' world0))
             = trace world0 @ ClientCreated (next_client world0) # evs \<and>
           list_all (uses_client (next_client world0)) evs)) \<and>
   snd (code_to_text (const_env (Inr (reply 200 (completion ''ok'')))) [] []
       [(''a.py'', ''x'')] ''{}'' world0)
     = \<lparr>now = 0, trace = [ClientCreated 0, Post 0 ''a.py'' ''x'', JsonParsed ''a.py'',
             CacheWrite ''x'' ''ok''], next_client = 1, open_clients = [0]\<rparr>"
proof -
  have r: "snd (code_to_text (const_env (Inr (reply 200 (completion ''ok'')))) [] []
       [(''a.py'', ''x'')] ''{}'' world0)
     = \<lparr>now = 0, trace = [ClientCreated 0, Post 0 ''a.py'' ''x'', JsonParsed ''a.py'',
             CacheWrite ''x'' ''ok''], next_client = 1, open_clients = [0]\<rparr>"
    by (simp add: run_ok)
  from code_to_text_one_client [of "const_env (Inr (reply 200 (completion ''ok'')))" "[]" "[]"
        "[(''a.py'', ''x'')]" "''{}''" world0] r
  show ?thesis by (rule conjI)
qed

text \<open>
  Claim C8 as stated fails: after an invocation that returns, and after one that raises
  on a malformed template, the client that the invocation created is not released.
\<close>

theorem code_to_text_client_not_released:
  "fst (code_to_text (const_env (Inr (reply 200 (completion ''ok'')))) [] []
       [(''a.py'', ''x'')] ''{}'' world0) = Inr [(''a.py'', ''ok'')] \<and>
   \<not> released 0 (snd (code_to_text (const_env (Inr (reply 200 (completion ''ok'')))) [] []
       [(''a.py'', ''x'')] ''{}'' world0)) \<and>
   fst (code_to_text (const_env (Inr (reply 200 (completion ''ok'')))) [] []
       [(''a.py'', ''x'')] ''{'' world0) = Inl ValueError \<and>
   \<not> released 0 (snd (code_to_text (const_env (Inr (reply 200 (completion ''ok'')))) [] []
       [(''a.py'', ''x'')] ''{'' world0))"
  by (simp add: run_ok run_bad_template released_def)


section \<open>The cache of one invocation\<close>

lemma extends_posts: "extends ts w w' \<Longrightarrow> posts w \<le> posts w'"
  by (auto simp: extends_def posts_def)

lemma cache_empty_miss: "entries c = [] \<Longrightarrow> \<not> cache_contains t c k"
  by (simp add: cache_contains_def cache_lookup_def)

lemma fresh_tracks: "fresh t st \<Longrightarrow> tracks t st"
  by (auto simp: fresh_def)

lemma list_all2_fresh_tracks: "list_all2 fresh ts sts \<Longrightarrow> list_all2 tracks ts sts"
  by (erule list_all2_mono) (rule fresh_tracks)

lemma posts_log_Post: "posts (log (Post hc f p) w) = Suc (posts w)"
  by (simp add: posts_def log_def)

lemma posts_tick: "posts (tick dt w) = posts w"
  by (simp add: posts_def tick_def)

lemma step_idle:
  assumes "idle ts l"
  shows "idle ts (step ev gap i l) \<or> posts (world l) < posts (world (step ev gap i l))"
proof (cases "i < length (tasks l)")
  case False
  with assms show ?thesis by (simp add: step_def)
next
  case True
  from assms have emp: "entries (cache l) = []" and fr: "list_all2 fresh ts (tasks l)"
    by (simp_all add: idle_def)
  from fr have len: "length ts = length (tasks l)"
    by (rule list_all2_lengthD)
  from fr True len have f: "fresh (ts ! i) (tasks l ! i)"
    by (simp add: list_all2_nthD2)
  have upd: "fresh (ts ! i) st \<Longrightarrow> list_all2 fresh ts ((tasks l)[i := st])" for st
    using list_all2_update_cong [OF fr, of "ts ! i" st i] by simp
  show ?thesis
  proof (cases "tasks l ! i")
    case (Created t)
    with f have t: "ts ! i = t" by (auto simp: fresh_def)
    show ?thesis
    proof (cases t)
      case (NullSummary f s)
      with t have "fresh (ts ! i) (Done (f, s))" by (simp add: fresh_def)
      from upd [OF this] Created NullSummary True emp show ?thesis
        by (simp add: step_def null_summary_def idle_def)
    next
      case (FetchSummary f p hc)
      from cache_empty_miss [OF emp] fetch_start_miss [of "world l" "cache l" p gap f hc]
      have "fetch_start gap f p hc (cache l) (world l)
          = (Suspended (posts (world l)), log (Post hc f p) (world l))"
        by simp
      with Created FetchSummary True show ?thesis
        by (simp add: step_def posts_log_Post)
    qed
  next
    case (Awaiting f p n)
    with f show ?thesis
      by (cases "ts ! i") (auto simp: fresh_def)
  next
    case (Done r)
    with assms True show ?thesis by (simp add: step_def)
  next
    case (Failed e)
    with assms True show ?thesis by (simp add: step_def)
  qed
qed

lemma step_quiet:
  assumes "list_all2 tracks ts (tasks l)" and "n0 \<le> posts (world l)"
    and "n0 < posts (world l) \<or> idle ts l"
  shows "list_all2 tracks ts (tasks (step ev gap i l)) \<and> n0 \<le> posts (world (step ev gap i l)) \<and>
         (n0 < posts (world (step ev gap i l)) \<or> idle ts (step ev gap i l))"
proof -
  from step_inv [OF assms(1), of ev gap i]
  have tr: "list_all2 tracks ts (tasks (step ev gap i l))"
    and mono: "posts (world l) \<le> posts (world (step ev gap i l))"
    by (auto dest: extends_posts)
  from assms(3) have "n0 < posts (world (step ev gap i l)) \<or> idle ts (step ev gap i l)"
  proof
    assume "n0 < posts (world l)"
    with mono show ?thesis by simp
  next
    assume "idle ts l"
    from step_idle [OF this, of ev gap i] assms(2) show ?thesis by auto
  qed
  with tr mono assms(2) show ?thesis by simp
qed

lemma start_task_quiet:
  assumes "list_all2 tracks ts (tasks l)" and "n0 \<le> posts (world l)"
    and "n0 < posts (world l) \<or> idle ts l"
  shows "list_all2 tracks ts (tasks (start_task ev i l)) \<and>
         n0 \<le> posts (world (start_task ev i l)) \<and>
         (n0 < posts (world (start_task ev i l)) \<or> idle ts (start_task ev i l))"
proof (cases "start_task ev i l = l")
  case True
  with assms show ?thesis by simp
next
  case False
  then have "start_task ev i l = step ev 0 i l"
    by (auto simp: start_task_def split: if_splits tstate.splits)
  with step_quiet [OF assms, of ev 0 i] show ?thesis by simp
qed

lemma sched_step_quiet:
  assumes "list_all2 tracks ts (tasks l)" and "n0 \<le> posts (world l)"
    and "n0 < posts (world l) \<or> idle ts l"
  shows "list_all2 tracks ts (tasks (sched_step ev l d)) \<and>
         n0 \<le> posts (world (sched_step ev l d)) \<and>
         (n0 < posts (world (sched_step ev l d)) \<or> idle ts (sched_step ev l d))"
proof -
  let ?l = "l\<lparr>world := tick (fst d) (world l)\<rparr>"
  from assms have "list_all2 tracks ts (tasks ?l)" and "n0 \<le> posts (world ?l)"
    and "n0 < posts (world ?l) \<or> idle ts ?l"
    by (simp_all add: posts_tick idle_def)
  from step_quiet [OF this, of ev "fst (snd d)" "snd (snd d)"] show ?thesis
    by (simp add: sched_step_def)
qed

lemma foldl_quiet:
  assumes step: "\<And>l x. list_all2 tracks ts (tasks l) \<Longrightarrow> n0 \<le> posts (world l) \<Longrightarrow>
      n0 < posts (world l) \<or> idle ts l \<Longrightarrow>
      list_all2 tracks ts (tasks (f l x)) \<and> n0 \<le> posts (world (f l x)) \<and>
      (n0 < posts (world (f l x)) \<or> idle ts (f l x))"
  shows "list_all2 tracks ts (tasks l) \<Longrightarrow> n0 \<le> posts (world l) \<Longrightarrow>
      n0 < posts (world l) \<or> idle ts l \<Longrightarrow>
      list_all2 tracks ts (tasks (foldl f l xs)) \<and> n0 \<le> posts (world (foldl f l xs)) \<and>
      (n0 < posts (world (foldl f l xs)) \<or> idle ts (foldl f l xs))"
proof (induction xs arbitrary: l)
  case Nil
  then show ?case by simp
next
  case (Cons x xs)
  from step [OF Cons.prems, of x] have "list_all2 tracks ts (tasks (f l x))"
    and "n0 \<le> posts (world (f l x))" and "n0 < posts (world (f l x)) \<or> idle ts (f l x)"
    by simp_all
  from Cons.IH [OF this] show ?case by simp
qed

lemma collect_idle:
  "entries c = [] \<Longrightarrow> list_all2 fresh ts0 sts \<Longrightarrow> \<exists>t\<in>set ts0. is_fetch t \<Longrightarrow>
     set ts0 \<subseteq> set ts \<Longrightarrow> collect ev sts c w = (res, c', w') \<Longrightarrow> posts w < posts w'"
proof (induction sts arbitrary: ts0 res c' w')
  case Nil
  then show ?case by simp
next
  case (Cons st sts)
  from Cons.prems(2) obtain t ts1 where ts0: "ts0 = t # ts1" and fr: "fresh t st"
    and rest: "list_all2 fresh ts1 sts"
    by (auto simp: list_all2_Cons2)
  from Cons.prems(4) ts0 have mem: "t \<in> set ts" and sub: "set ts1 \<subseteq> set ts"
    by simp_all
  obtain r c1 w1 where co: "complete ev st c w = (r, c1, w1)"
    by (metis prod_cases3)
  obtain rs c2 w2 where cl: "collect ev sts c1 w1 = (rs, c2, w2)"
    by (metis prod_cases3)
  from Cons.prems(5) co cl have w': "w' = w2" by simp
  show ?case
  proof (cases "is_fetch t")
    case True
    then obtain f p hc where t: "t = FetchSummary f p hc" by (cases t) auto
    with fr have st: "st = Created (FetchSummary f p hc)" by (simp add: fresh_def)
    obtain r1 d1 v1 where fr1: "fetch_resume ev f p (post ev (posts w) p) c
        (tick 0 (log (Post hc f p) w)) = (r1, d1, v1)"
      by (metis prod_cases3)
    from fetch_resume_extends [OF fr1, of ts] have "posts (tick 0 (log (Post hc f p) w)) \<le> posts v1"
      by (auto dest: extends_posts)
    then have a: "posts w < posts v1"
      by (simp add: posts_tick posts_log_Post)
    from co st fr1 cache_empty_miss [OF Cons.prems(1)] have "w1 = v1"
      by (simp add: fetch_summary_def fetch_start_miss)
    with a have b: "posts w < posts w1" by simp
    from collect_inv [OF list_all2_fresh_tracks [OF rest] sub cl] have "posts w1 \<le> posts w2"
      by (auto dest: extends_posts)
    with b w' show ?thesis by simp
  next
    case False
    then obtain f s where t: "t = NullSummary f s" by (cases t) auto
    with fr have "st = Created (NullSummary f s) \<or> st = Done (f, s)"
      by (cases st) (auto simp: fresh_def)
    with co have same: "c1 = c" "w1 = w" by auto
    from Cons.prems(3) ts0 False have ex: "\<exists>t\<in>set ts1. is_fetch t" by auto
    from Cons.IH [OF Cons.prems(1) rest ex sub] cl same w' show ?thesis by simp
  qed
qed

lemma gather_posts:
  assumes "\<exists>t\<in>set ts. is_fetch t" and "gather ev sched ts get_cache w = (res, w')"
  shows "posts w < posts w'"
proof -
  let ?l0 = "\<lparr>tasks = map Created ts, cache = get_cache, world = w\<rparr>"
  let ?l1 = "foldl (sched_step ev) ?l0 sched"
  let ?l2 = "foldl (\<lambda>l i. start_task ev i l) ?l1 [0..<length ts]"
  have t0: "list_all2 tracks ts (tasks ?l0)"
    by (simp add: list_all2_conv_all_nth)
  have p0: "posts w \<le> posts (world ?l0)" by simp
  have i0: "posts w < posts (world ?l0) \<or> idle ts ?l0"
    by (simp add: idle_def get_cache_def list_all2_conv_all_nth fresh_def)
  from foldl_quiet [of ts "posts w" "sched_step ev", OF sched_step_quiet t0 p0 i0, of sched]
  have t1: "list_all2 tracks ts (tasks ?l1)" and p1: "posts w \<le> posts (world ?l1)"
    and i1: "posts w < posts (world ?l1) \<or> idle ts ?l1"
    by simp_all
  from foldl_quiet [of ts "posts w" "\<lambda>l i. start_task ev i l", OF start_task_quiet t1 p1 i1,
      of "[0..<length ts]"]
  have t2: "list_all2 tracks ts (tasks ?l2)" and p2: "posts w \<le> posts (world ?l2)"
    and i2: "posts w < posts (world ?l2) \<or> idle ts ?l2"
    by simp_all
  obtain rs c3 w3 where cl: "collect ev (tasks ?l2) (cache ?l2) (world ?l2) = (rs, c3, w3)"
    by (metis prod_cases3)
  from assms(2) cl have w': "w' = w3"
    by (simp add: gather_def Let_def)
  from i2 show ?thesis
  proof
    assume "posts w < posts (world ?l2)"
    moreover from collect_inv [OF t2 subset_refl cl] have "posts (world ?l2) \<le> posts w3"
      by (auto dest: extends_posts)
    ultimately show ?thesis using w' by simp
  next
    assume "idle ts ?l2"
    then have "entries (cache ?l2) = []" and "list_all2 fresh ts (tasks ?l2)"
      by (simp_all add: idle_def)
    from collect_idle [OF this assms(1) subset_refl cl] p2 w' show ?thesis by simp
  qed
qed

text \<open>
  Claim C7, amended. Every invocation of the pipeline starts with a cache of its own, which
  is empty: no entry of an earlier invocation is in it. So an invocation that returns and
  has a file that is not ignored and is within the token budget sends at least one
  request, whatever ran before it, a run with identical inputs included.
\<close>

theorem code_to_text_fresh_cache:
  "renders ev ignore_files files prompt \<and> (path, contents) \<in> set files \<and>
   \<not> ignored ignore_files path \<and> render ev prompt contents = Inr prompt_code \<and>
   length (split_ws prompt_code) \<le> 4096 \<longrightarrow>
     posts w < posts (snd (code_to_text ev sched ignore_files files prompt w))"
proof (intro impI)
  assume a: "renders ev ignore_files files prompt \<and> (path, contents) \<in> set files \<and>
   \<not> ignored ignore_files path \<and> render ev prompt contents = Inr prompt_code \<and>
   length (split_ws prompt_code) \<le> 4096"
  then have "renders ev ignore_files files prompt" by simp
  with build_tasks_returns [of ev ignore_files files prompt "next_client w"]
  obtain ts where ts: "build_tasks ev ignore_files files prompt (next_client w) = Inr ts"
    by blast
  from a build_tasks_has [OF ts, of path contents]
  have "FetchSummary path prompt_code (next_client w) \<in> set ts"
    by (auto simp: task_of_def MAX_TOKENS_def)
  then have ex: "\<exists>t\<in>set ts. is_fetch t" by force
  let ?w1 = "snd (get_http_client w)"
  obtain res w' where g: "gather ev sched ts get_cache ?w1 = (res, w')"
    by (cases "gather ev sched ts get_cache ?w1")
  have "posts ?w1 = posts w"
    by (simp add: get_http_client_def posts_def log_def)
  with gather_posts [OF ex g] ts g
  show "posts w < posts (snd (code_to_text ev sched ignore_files files prompt w))"
    by (simp add: code_to_text_unfold)
qed

lemma run_again:
  "code_to_text (const_env (Inr (reply 200 (completion ''ok'')))) [] [] [(''a.py'', ''x'')] ''{}''
       \<lparr>now = 0, trace = [ClientCreated 0, Post 0 ''a.py'' ''x'', JsonParsed ''a.py'',
             CacheWrite ''x'' ''ok''], next_client = 1, open_clients = [0]\<rparr>
     = (Inr [(''a.py'', ''ok'')],
        \<lparr>now = 0, trace = [ClientCreated 0, Post 0 ''a.py'' ''x'', JsonParsed ''a.py'',
             CacheWrite ''x'' ''ok'', ClientCreated 1, Post 1 ''a.py'' ''x'', JsonParsed ''a.py'',
             CacheWrite ''x'' ''ok''], next_client = 2, open_clients = [1, 0]\<rparr>)"
  by (simp add: run_defs)


theorem code_to_text_fresh_cache_witness:
  "(renders (const_env (Inr (reply 200 (completion ''ok'')))) [] [(''a.py'', ''x'')] ''{}'' \<and>
    (''a.py'', ''x'') \<in> set [(''a.py'', ''x'')] \<and> \<not> ignored [] ''a.py'' \<and>
    render (const_env (Inr (reply 200 (completion ''ok'')))) ''{}'' ''x'' = Inr ''x'' \<and>
    length (split_ws ''x'') \<le> 4096) \<and>
   posts (snd (code_to_text (const_env (Inr (reply 200 (completion ''ok'')))) [] []
              [(''a.py'', ''x'')] ''{}'' world0))
     < posts (snd (code_to_text (const_env (Inr (reply 200 (completion ''ok'')))) [] []
              [(''a.py'', ''x'')] ''{}''
              (snd (code_to_text (const_env (Inr (reply 200 (completion ''ok'')))) [] []
                 [(''a.py'', ''x'')] ''{}'' world0))))"
proof -
  let ?ev = "const_env (Inr (reply 200 (completion ''ok'')))"
  have h: "renders ?ev [] [(''a.py'', ''x'')] ''{}'' \<and>
    (''a.py'', ''x'') \<in> set [(''a.py'', ''x'')] \<and> \<not> ignored [] ''a.py'' \<and>
    render ?ev ''{}'' ''x'' = Inr ''x'' \<and> length (split_ws ''x'') \<le> 4096"
    by (simp add: renders_def ignored_def const_env_def str_format_def format_field_def
        split_ws_def is_space_def)
  from code_to_text_fresh_cache [of ?ev "[]" "[(''a.py'', ''x'')]" "''{}''" "''a.py''" "''x''" "''x''"
      "snd (code_to_text ?ev [] [] [(''a.py'', ''x'')] ''{}'' world0)" "[]"] h
  show ?thesis by blast
qed

text \<open>
  Claim C7 as stated fails: a run with one file sends one request and caches the answer;
  the run repeated at once with identical inputs, no time having passed, sends a second
  request.
\<close>

theorem code_to_text_second_run_requests:
  "posts (snd (code_to_text (const_env (Inr (reply 200 (completion ''ok'')))) [] []
              [(''a.py'', ''x'')] ''{}'' world0)) = 1 \<and>
   posts (snd (code_to_text (const_env (Inr (reply 200 (completion ''ok'')))) [] []
              [(''a.py'', ''x'')] ''{}''
              (snd (code_to_text (const_env (Inr (reply 200 (completion ''ok'')))) [] []
                 [(''a.py'', ''x'')] ''{}'' world0)))) = 2 \<and>
   now (snd (code_to_text (const_env (Inr (reply 200 (completion ''ok'')))) [] []
              [(''a.py'', ''x'')] ''{}''
              (snd (code_to_text (const_env (Inr (reply 200 (completion ''ok'')))) [] []
                 [(''a.py'', ''x'')] ''{}'' world0)))) = 0"
proof -
  let ?ev = "const_env (Inr (reply 200 (completion ''ok'')))"
  let ?w1 = "\<lparr>now = 0, trace = [ClientCreated 0, Post 0 ''a.py'' ''x'', JsonParsed ''a.py'',
             CacheWrite ''x'' ''ok''], next_client = 1, open_clients = [0]\<rparr>"
  let ?w2 = "\<lparr>now = 0, trace = [ClientCreated 0, Post 0 ''a.py'' ''x'', JsonParsed ''a.py'',
             CacheWrite ''x'' ''ok'', ClientCreated 1, Post 1 ''a.py'' ''x'', JsonParsed ''a.py'',
             CacheWrite ''x'' ''ok''], next_client = 2, open_clients = [1, 0]\<rparr>"
  have r1: "snd (code_to_text ?ev [] [] [(''a.py'', ''x'')] ''{}'' world0) = ?w1"
    by (simp only: run_ok snd_conv)
  have r2: "snd (code_to_text ?ev [] [] [(''a.py'', ''x'')] ''{}'' ?w1) = ?w2"
    by (simp only: run_again snd_conv)
  show ?thesis
    unfolding r1 r2 by (simp add: posts_def)
qed


end
